theory Spec2Isabelle
  imports Complex_Main "HOL-Library.Multiset"
begin

section \<open>Data model of behavior.py\<close>

text \<open>
  Python floats are idealised as the reals; Python's unbounded integers are \<open>int\<close>.
  Objects that the code shares by reference (\<open>StoreZone\<close>, \<open>Agent\<close>) live in a store and
  are named by their address, a natural number: neither class defines \<open>__eq__\<close>, so the
  source's \<open>==\<close>, \<open>is\<close>, \<open>in\<close> and \<open>list.remove\<close> on them compare addresses.
  An agent's address is the value \<open>Agent._id_counter\<close> had when it was constructed.
\<close>

datatype CustomerState = WALKING | SHOPPING | IN_QUEUE | PAYING | LEAVING | FINISHED

datatype BehaviorType = IMPULSIVE | TARGETED | EXPLORER | FAMILY | BUDGET

datatype BudgetLevel = LOW | MEDIUM | HIGH

datatype error = ValueError | IndexError | ZeroDivisionError | TypeError

type_synonym QPointF = "real \<times> real"

text \<open>
  \<open>QPointF\<close> and \<open>QRectF\<close> belong to PyQt6. A point is true in a condition when it is not
  null, that is when a coordinate is non-zero (PyQt's \<open>QPointF.__bool__\<close>); \<open>==\<close> on
  points is idealised as equality of both coordinates.
\<close>

definition point_add :: "QPointF \<Rightarrow> QPointF \<Rightarrow> QPointF" where
  "point_add p q = (fst p + fst q, snd p + snd q)"

definition point_sub :: "QPointF \<Rightarrow> QPointF \<Rightarrow> QPointF" where
  "point_sub p q = (fst p - fst q, snd p - snd q)"

definition point_truthy :: "QPointF \<Rightarrow> bool" where
  "point_truthy p = (\<not> (fst p = 0 \<and> snd p = 0))"

record QRectF =
  rect_x :: real
  rect_y :: real
  rect_w :: real
  rect_h :: real

definition rect_center :: "QRectF \<Rightarrow> QPointF" where
  "rect_center r = (rect_x r + rect_w r / 2, rect_y r + rect_h r / 2)"

definition rect_adjusted :: "QRectF \<Rightarrow> real \<Rightarrow> real \<Rightarrow> real \<Rightarrow> real \<Rightarrow> QRectF" where
  "rect_adjusted r dx1 dy1 dx2 dy2 =
     \<lparr>rect_x = rect_x r + dx1, rect_y = rect_y r + dy1,
      rect_w = rect_w r + dx2 - dx1, rect_h = rect_h r + dy2 - dy1\<rparr>"

definition span_overlap :: "real \<Rightarrow> real \<Rightarrow> real \<Rightarrow> real \<Rightarrow> bool" where
  "span_overlap p1 w1 p2 w2 =
     (let l1 = (if w1 < 0 then p1 + w1 else p1); r1 = (if w1 < 0 then p1 else p1 + w1);
          l2 = (if w2 < 0 then p2 + w2 else p2); r2 = (if w2 < 0 then p2 else p2 + w2)
      in l1 \<noteq> r1 \<and> l2 \<noteq> r2 \<and> \<not> (l1 \<ge> r2 \<or> l2 \<ge> r1))"

definition rect_intersects :: "QRectF \<Rightarrow> QRectF \<Rightarrow> bool" where
  "rect_intersects a b =
     (span_overlap (rect_x a) (rect_w a) (rect_x b) (rect_w b) \<and>
      span_overlap (rect_y a) (rect_h a) (rect_y b) (rect_h b))"

record AgentDimensions =
  width_mm :: real
  length_mm :: real

definition get_dimensions :: "BehaviorType \<Rightarrow> AgentDimensions" where
  "get_dimensions b =
     (if b = FAMILY then \<lparr>width_mm = 1200, length_mm = 1500\<rparr>
      else if b \<in> set [IMPULSIVE, TARGETED] then \<lparr>width_mm = 450, length_mm = 300\<rparr>
      else \<lparr>width_mm = 900, length_mm = 600\<rparr>)"

record StoreZone =
  name :: string
  rect :: QRectF
  attractiveness :: real
  category :: "string option"
  queue_length :: int
  max_queue_length :: int
  queue_spacing :: real

definition StoreZone_init :: "string \<Rightarrow> QRectF \<Rightarrow> real \<Rightarrow> string option \<Rightarrow> StoreZone" where
  "StoreZone_init n r a c =
     \<lparr>name = n, rect = r, attractiveness = a, category = c,
      queue_length = 0, max_queue_length = 5, queue_spacing = 900\<rparr>"

definition center :: "StoreZone \<Rightarrow> QPointF" where
  "center z = rect_center (rect z)"

definition get_queue_position ::
  "StoreZone \<Rightarrow> int \<Rightarrow> AgentDimensions \<Rightarrow> real \<Rightarrow> error + QPointF" where
  "get_queue_position z pos agent_dims scl =
     (if scl = 0 then Inl ZeroDivisionError
      else let spacing = (queue_spacing z + length_mm agent_dims) / scl
           in Inr (point_add (rect_center (rect z)) (- spacing * real_of_int pos, 0)))"

definition can_join_queue :: "StoreZone \<Rightarrow> bool" where
  "can_join_queue z = (queue_length z < max_queue_length z)"

text \<open>\<open>join_queue\<close> returns the zone after the call and the value the call returns.\<close>

definition join_queue :: "StoreZone \<Rightarrow> StoreZone \<times> int" where
  "join_queue z =
     (if can_join_queue z
      then (z\<lparr>queue_length := queue_length z + 1\<rparr>, queue_length z + 1)
      else (z, - 1))"

subsection \<open>The random module\<close>

text \<open>
  The generator is a pair of streams: the values \<open>random.random()\<close> will return, and the
  indices \<open>random.choice\<close> will draw (taken below the length of its argument).
  \<open>random.uniform(a, b)\<close> is \<open>a + (b - a) * random()\<close>, as in CPython.
\<close>

record rng =
  floats :: "nat \<Rightarrow> real"
  picks :: "nat \<Rightarrow> nat"

definition random_random :: "rng \<Rightarrow> real \<times> rng" where
  "random_random g = (floats g 0, g\<lparr>floats := (\<lambda>n. floats g (Suc n))\<rparr>)"

definition random_uniform :: "real \<Rightarrow> real \<Rightarrow> rng \<Rightarrow> real \<times> rng" where
  "random_uniform a b g = (case random_random g of (r, g') \<Rightarrow> (a + (b - a) * r, g'))"

definition random_choice :: "'a list \<Rightarrow> rng \<Rightarrow> error + ('a \<times> rng)" where
  "random_choice xs g =
     (if xs = [] then Inl IndexError
      else Inr (xs ! (picks g 0 mod length xs), g\<lparr>picks := (\<lambda>n. picks g (Suc n))\<rparr>))"

subsection \<open>Agents\<close>

record Agent =
  agent_id :: nat
  position :: QPointF
  dimensions :: AgentDimensions
  scale :: real
  real_speed :: real
  speed :: real
  heading :: QPointF
  desired_heading :: QPointF
  behavior :: BehaviorType
  budget :: BudgetLevel
  all_zones :: "nat list"
  unvisited_zones :: "nat list"
  cash_zones :: "nat list"
  exit_points :: "QPointF list"
  state :: CustomerState
  destination :: "QPointF option"
  shopping_time :: real
  payment_time :: real
  min_shopping_time :: real
  max_shopping_time :: real
  service_time :: real
  current_cash_zone :: "nat option"
  queue_position :: "int option"
  reward_sensitivity :: real
  cost_sensitivity :: real
  imagery_vividness :: real
  anticipatory_emotion_weight :: real
  impulse_prob :: real
  entry_heading :: QPointF
  first_move :: bool
  visited_zones :: "nat list"

type_synonym zone_store = "nat \<Rightarrow> StoreZone"

definition finished :: "Agent \<Rightarrow> bool" where
  "finished a = (state a = FINISHED)"

definition distance_to :: "Agent \<Rightarrow> QPointF \<Rightarrow> real" where
  "distance_to a p =
     (let dx = fst p - fst (position a); dy = snd p - snd (position a)
      in sqrt (dx * dx + dy * dy))"


fun py_min :: "real list \<Rightarrow> real" where
  "py_min [] = 0"
| "py_min [x] = x"
| "py_min (x # xs) = min x (py_min xs)"

fun py_max :: "real list \<Rightarrow> real" where
  "py_max [] = 0"
| "py_max [x] = x"
| "py_max (x # xs) = max x (py_max xs)"

text \<open>
  \<open>get_collision_rect\<close>: the source takes \<open>angle = atan2(hy, hx)\<close> and uses only its cosine
  and sine, which are \<open>hx / |h|\<close> and \<open>hy / |h|\<close> (1 and 0 for the null heading, where
  \<open>atan2\<close> gives 0). \<open>py_min\<close> and \<open>py_max\<close> are only applied to the four corners.
\<close>

definition get_collision_rect :: "Agent \<Rightarrow> error + QRectF" where
  "get_collision_rect a =
     (if scale a = 0 then Inl ZeroDivisionError
      else
        let width = width_mm (dimensions a) / scale a;
            len = length_mm (dimensions a) / scale a;
            hx = fst (heading a); hy = snd (heading a);
            n = sqrt (hx * hx + hy * hy);
            cx = fst (position a); cy = snd (position a);
            cos_a = (if n = 0 then 1 else hx / n);
            sin_a = (if n = 0 then 0 else hy / n);
            hw = width / 2; hl = len / 2;
            xs = [cx + hw * cos_a - hl * sin_a, cx - hw * cos_a - hl * sin_a,
                  cx - hw * cos_a + hl * sin_a, cx + hw * cos_a + hl * sin_a];
            ys = [cy + hw * sin_a + hl * cos_a, cy - hw * sin_a + hl * cos_a,
                  cy - hw * sin_a - hl * cos_a, cy + hw * sin_a - hl * cos_a]
        in Inr \<lparr>rect_x = py_min xs, rect_y = py_min ys,
                rect_w = py_max xs - py_min xs, rect_h = py_max ys - py_min ys\<rparr>)"

text \<open>
  \<open>_avoid_collisions\<close>: the loop over \<open>others\<close>, with the accumulated vector \<open>v\<close>. The agent
  itself is \<open>ags i\<close>; \<open>other is self\<close> compares addresses.
\<close>

fun avoid_loop ::
  "(nat \<Rightarrow> Agent) \<Rightarrow> nat \<Rightarrow> QRectF \<Rightarrow> nat list \<Rightarrow> QPointF \<Rightarrow> error + QPointF" where
  "avoid_loop ags i my_rect [] v = Inr v"
| "avoid_loop ags i my_rect (j # js) v =
     (if j = i \<or> finished (ags j) then avoid_loop ags i my_rect js v
      else
        (case get_collision_rect (ags j) of
           Inl e \<Rightarrow> Inl e
         | Inr other_rect \<Rightarrow>
             if \<not> rect_intersects my_rect (rect_adjusted other_rect (- 50) (- 50) 50 50)
             then avoid_loop ags i my_rect js v
             else
               let dx = fst (position (ags i)) - fst (position (ags j));
                   dy = snd (position (ags i)) - snd (position (ags j));
                   d2 = dx * dx + dy * dy
               in if d2 > 0 then
                    (if 2 * scale (ags i) = 0 then Inl ZeroDivisionError
                     else
                       let min_dist = (width_mm (dimensions (ags i)) + width_mm (dimensions (ags j)))
                                        / (2 * scale (ags i));
                           d = sqrt d2
                       in if d < min_dist then
                            avoid_loop ags i my_rect js
                              (point_add v (dx * (2 * (min_dist - d) / d), dy * (2 * (min_dist - d) / d)))
                          else if min_dist = 0 then Inl ZeroDivisionError
                          else
                            avoid_loop ags i my_rect js
                              (point_add v (dx * (0.5 * exp (- (d - min_dist) / min_dist)),
                                            dy * (0.5 * exp (- (d - min_dist) / min_dist)))))
                  else avoid_loop ags i my_rect js v))"

definition avoid_collisions :: "(nat \<Rightarrow> Agent) \<Rightarrow> nat \<Rightarrow> nat list \<Rightarrow> error + QPointF" where
  "avoid_collisions ags i others =
     (case get_collision_rect (ags i) of
        Inl e \<Rightarrow> Inl e
      | Inr my_rect \<Rightarrow> avoid_loop ags i my_rect others (0, 0))"

definition zones_to_right :: "Agent \<Rightarrow> zone_store \<Rightarrow> nat list \<Rightarrow> nat list" where
  "zones_to_right a zs zones =
     filter (\<lambda>z. let vec = point_sub (center (zs z)) (position a)
                 in fst (entry_heading a) * snd vec - snd (entry_heading a) * fst vec < 0) zones"

definition utility :: "Agent \<Rightarrow> StoreZone \<Rightarrow> real" where
  "utility a z =
     reward_sensitivity a * attractiveness z
     + anticipatory_emotion_weight a * imagery_vividness a
     - cost_sensitivity a / max (attractiveness z) 0.1"

text \<open>The weight of one zone in \<open>_weighted_choice\<close>, with the draws it makes, before the
  final \<open>max(w, 0.0)\<close>.\<close>

definition zone_weight :: "Agent \<Rightarrow> StoreZone \<Rightarrow> rng \<Rightarrow> real \<times> rng" where
  "zone_weight a z g =
     (if behavior a = EXPLORER then (attractiveness z, g)
      else if behavior a = TARGETED then (1 / (1 + distance_to a (center z)), g)
      else if behavior a = BUDGET then (max 0 (utility a z), g)
      else if behavior a = IMPULSIVE then
        (case random_random g of (r1, g1) \<Rightarrow>
           (case random_random g1 of (r2, g2) \<Rightarrow>
              ((if r1 < impulse_prob a then utility a z else 1) + r2, g2)))
      else (case random_random g of (r, g1) \<Rightarrow> (0.5 + r * 0.5, g1)))"

fun zone_weights :: "Agent \<Rightarrow> zone_store \<Rightarrow> nat list \<Rightarrow> rng \<Rightarrow> real list \<times> rng" where
  "zone_weights a zs [] g = ([], g)"
| "zone_weights a zs (z # rest) g =
     (case zone_weight a (zs z) g of (w, g1) \<Rightarrow>
        (case zone_weights a zs rest g1 of (ws, g2) \<Rightarrow> (max w 0 # ws, g2)))"

text \<open>The roulette loop \<open>for z, w in zip(zones, weights): r -= w; if r <= 0: return z\<close>;
  \<open>None\<close> when the loop ends without returning.\<close>

fun roulette :: "(nat \<times> real) list \<Rightarrow> real \<Rightarrow> nat option" where
  "roulette [] r = None"
| "roulette ((z, w) # rest) r = (if r - w \<le> 0 then Some z else roulette rest (r - w))"

definition weighted_choice ::
  "Agent \<Rightarrow> zone_store \<Rightarrow> nat list \<Rightarrow> rng \<Rightarrow> error + (nat \<times> rng)" where
  "weighted_choice a zs zones g =
     (case zone_weights a zs zones g of (weights, g1) \<Rightarrow>
        if sum_list weights \<le> 0 then random_choice zones g1
        else
          (case random_uniform 0 (sum_list weights) g1 of (r, g2) \<Rightarrow>
             (case roulette (zip zones weights) r of
                Some z \<Rightarrow> Inr (z, g2)
              | None \<Rightarrow> if zones = [] then Inl IndexError else Inr (last zones, g2))))"

text \<open>Python's \<open>min(xs, key=...)\<close> keeps the first element whose key is least; \<open>lt x b\<close>
  says that the key of \<open>x\<close> is below the key of the best element so far.\<close>

fun min_from :: "('a \<Rightarrow> 'a \<Rightarrow> bool) \<Rightarrow> 'a \<Rightarrow> 'a list \<Rightarrow> 'a" where
  "min_from lt b [] = b"
| "min_from lt b (x # xs) = min_from lt (if lt x b then x else b) xs"

definition py_min_key :: "('a \<Rightarrow> 'a \<Rightarrow> bool) \<Rightarrow> 'a list \<Rightarrow> error + 'a" where
  "py_min_key lt xs = (case xs of [] \<Rightarrow> Inl ValueError | x # rest \<Rightarrow> Inr (min_from lt x rest))"

definition budget_filter :: "Agent \<Rightarrow> zone_store \<Rightarrow> nat list \<Rightarrow> nat list" where
  "budget_filter a zs zones =
     (if budget a = LOW then
        (let f = filter (\<lambda>z. attractiveness (zs z) \<ge> 1.3) zones in if f \<noteq> [] then f else zones)
      else if budget a = MEDIUM then
        (let f = filter (\<lambda>z. attractiveness (zs z) \<ge> 1.1) zones in if f \<noteq> [] then f else zones)
      else zones)"

text \<open>
  The zones the first-move rule leaves: those to the right of the entry heading on the
  first selection when there is one, all unvisited zones otherwise.
\<close>

definition candidates :: "Agent \<Rightarrow> zone_store \<Rightarrow> nat list" where
  "candidates a zs =
     (let rz = zones_to_right a zs (unvisited_zones a)
      in if first_move a \<and> rz \<noteq> [] then rz else unvisited_zones a)"

text \<open>
  \<open>_choose_next_target\<close> from its third \<open>if\<close> on: the choice among the unvisited product
  zones, and the final fall-through to \<open>FINISHED\<close>.
\<close>

definition choose_product_zone ::
  "Agent \<Rightarrow> zone_store \<Rightarrow> rng \<Rightarrow> error + (Agent \<times> zone_store \<times> rng)" where
  "choose_product_zone a zs g =
     (if unvisited_zones a \<noteq> [] then
        (let zones1 = candidates a zs;
             a1 = (if first_move a then a\<lparr>first_move := False\<rparr> else a);
             zones2 = budget_filter a1 zs zones1
         in case weighted_choice a1 zs zones2 g of
              Inl e \<Rightarrow> Inl e
            | Inr (z, g1) \<Rightarrow>
                if z \<in> set (unvisited_zones a1) then
                  Inr (a1\<lparr>destination := Some (center (zs z)),
                          visited_zones := visited_zones a1 @ [z],
                          unvisited_zones := remove1 z (unvisited_zones a1),
                          state := WALKING\<rparr>, zs, g1)
                else Inl ValueError)
      else Inr (a\<lparr>state := FINISHED, destination := None\<rparr>, zs, g))"

definition cash_key_less :: "Agent \<Rightarrow> zone_store \<Rightarrow> nat \<Rightarrow> nat \<Rightarrow> bool" where
  "cash_key_less a zs x b =
     (queue_length (zs x) < queue_length (zs b) \<or>
      (queue_length (zs x) = queue_length (zs b) \<and>
       distance_to a (center (zs x)) < distance_to a (center (zs b))))"

definition choose_next_target ::
  "Agent \<Rightarrow> zone_store \<Rightarrow> rng \<Rightarrow> error + (Agent \<times> zone_store \<times> rng)" where
  "choose_next_target a zs g =
     (if state a = LEAVING then
        (case py_min_key (\<lambda>p q. distance_to a p < distance_to a q) (exit_points a) of
           Inl e \<Rightarrow> Inl e
         | Inr nearest_exit \<Rightarrow> Inr (a\<lparr>destination := Some nearest_exit\<rparr>, zs, g))
      else if unvisited_zones a = [] \<and> cash_zones a \<noteq> [] then
        (let available_cash = filter (\<lambda>cz. can_join_queue (zs cz)) (cash_zones a)
         in if available_cash \<noteq> [] then
              (case py_min_key (cash_key_less a zs) available_cash of
                 Inl e \<Rightarrow> Inl e
               | Inr cash \<Rightarrow>
                   (case join_queue (zs cash) of (z', qp) \<Rightarrow>
                      let a1 = a\<lparr>current_cash_zone := Some cash, queue_position := Some qp\<rparr>;
                          zs1 = zs(cash := z')
                      in if qp > 0 then
                           (case get_queue_position z' qp (dimensions a1) (scale a1) of
                              Inl e \<Rightarrow> Inl e
                            | Inr d \<Rightarrow> Inr (a1\<lparr>destination := Some d, state := IN_QUEUE\<rparr>, zs1, g))
                         else choose_product_zone a1 zs1 g))
            else choose_product_zone a zs g)
      else choose_product_zone a zs g)"


definition dest_truthy :: "Agent \<Rightarrow> bool" where
  "dest_truthy a = (case destination a of None \<Rightarrow> False | Some d \<Rightarrow> point_truthy d)"

definition update_heading :: "Agent \<Rightarrow> QPointF \<Rightarrow> QPointF \<Rightarrow> Agent" where
  "update_heading a target avoid =
     (if dest_truthy a then
        (let dx = fst target - fst (position a);
             dy = snd target - snd (position a);
             len = sqrt (dx * dx + dy * dy);
             a1 = (if len > 0 then a\<lparr>desired_heading := (dx / len, dy / len)\<rparr> else a);
             a2 = (if \<not> (fst avoid = 0 \<and> snd avoid = 0) then
                     (let avoid_length = sqrt (fst avoid * fst avoid + snd avoid * snd avoid);
                          avoid_norm = (fst avoid / avoid_length, snd avoid / avoid_length);
                          dh = point_add (desired_heading a1) avoid_norm;
                          dh_length = sqrt (fst dh * fst dh + snd dh * snd dh)
                      in if dh_length > 0
                         then a1\<lparr>desired_heading := (fst dh / dh_length, snd dh / dh_length)\<rparr>
                         else a1\<lparr>desired_heading := dh\<rparr>)
                   else a1);
             turn_rate = 0.2;
             h = (fst (heading a2) + (fst (desired_heading a2) - fst (heading a2)) * turn_rate,
                  snd (heading a2) + (snd (desired_heading a2) - snd (heading a2)) * turn_rate);
             h_length = sqrt (fst h * fst h + snd h * snd h)
         in a2\<lparr>heading := (if h_length > 0 then (fst h / h_length, snd h / h_length) else h)\<rparr>)
      else a)"

subsection \<open>The world: the zone store, the agent store and \<open>Agent._id_counter\<close>\<close>

record world =
  zones :: zone_store
  agents :: "nat \<Rightarrow> Agent"
  id_counter :: nat

definition put_agent :: "world \<Rightarrow> nat \<Rightarrow> Agent \<Rightarrow> world" where
  "put_agent w i a = w\<lparr>agents := (agents w)(i := a)\<rparr>"

text \<open>
  \<open>move_towards_target\<close>, one definition for each of the states the method tells apart.
  \<open>i\<close> is the address of \<open>self\<close>, \<open>others\<close> the addresses in the list passed.
\<close>

definition move_shopping :: "world \<Rightarrow> nat \<Rightarrow> real \<Rightarrow> rng \<Rightarrow> error + (world \<times> rng)" where
  "move_shopping w i delta_time g =
     (let a1 = (agents w i)\<lparr>shopping_time := shopping_time (agents w i) + delta_time\<rparr>
      in if shopping_time a1 \<ge> min_shopping_time a1 then
           (if max_shopping_time a1 - min_shopping_time a1 = 0 then Inl ZeroDivisionError
            else
              (case random_random g of (r, g1) \<Rightarrow>
                 if r < delta_time / (max_shopping_time a1 - min_shopping_time a1) then
                   (case choose_next_target (a1\<lparr>shopping_time := 0\<rparr>) (zones w) g1 of
                      Inl e \<Rightarrow> Inl e
                    | Inr (a2, zs, g2) \<Rightarrow> Inr (put_agent (w\<lparr>zones := zs\<rparr>) i a2, g2))
                 else Inr (put_agent w i a1, g1)))
         else Inr (put_agent w i a1, g))"

definition move_paying :: "world \<Rightarrow> nat \<Rightarrow> real \<Rightarrow> rng \<Rightarrow> error + (world \<times> rng)" where
  "move_paying w i delta_time g =
     (let a1 = (agents w i)\<lparr>payment_time := payment_time (agents w i) + delta_time\<rparr>
      in if payment_time a1 \<ge> service_time a1 then
           (let a2 = a1\<lparr>payment_time := 0, state := LEAVING\<rparr>;
                zs1 = (case current_cash_zone a2 of
                         None \<Rightarrow> zones w
                       | Some c \<Rightarrow> (zones w)(c := (zones w c)\<lparr>queue_length := queue_length (zones w c) - 1\<rparr>));
                a3 = (case current_cash_zone a2 of
                        None \<Rightarrow> a2
                      | Some c \<Rightarrow> a2\<lparr>current_cash_zone := None\<rparr>)
            in case choose_next_target a3 zs1 g of
                 Inl e \<Rightarrow> Inl e
               | Inr (a4, zs2, g1) \<Rightarrow> Inr (put_agent (w\<lparr>zones := zs2\<rparr>) i a4, g1))
         else Inr (put_agent w i a1, g))"

text \<open>
  The queue of an agent waiting at zone \<open>c\<close>: the agents of \<open>others\<close> that wait at \<open>c\<close>,
  sorted by \<open>queue_position\<close> with Python's stable sort. Comparing \<open>None\<close> with a number
  raises \<open>TypeError\<close>, which needs two elements to compare.
\<close>

definition slot_key :: "world \<Rightarrow> nat \<Rightarrow> int" where
  "slot_key w j = (case queue_position (agents w j) of None \<Rightarrow> 0 | Some q \<Rightarrow> q)"

definition waiting_at :: "world \<Rightarrow> nat \<Rightarrow> nat list \<Rightarrow> nat list" where
  "waiting_at w c others =
     filter (\<lambda>j. current_cash_zone (agents w j) = Some c \<and> state (agents w j) = IN_QUEUE) others"

definition sorted_queue :: "world \<Rightarrow> nat \<Rightarrow> nat list \<Rightarrow> error + nat list" where
  "sorted_queue w c others =
     (let queue = waiting_at w c others
      in if length queue \<ge> 2 \<and> list_ex (\<lambda>j. queue_position (agents w j) = None) queue
         then Inl TypeError
         else Inr (sort_key (slot_key w) queue))"

definition move_in_queue :: "world \<Rightarrow> nat \<Rightarrow> nat list \<Rightarrow> real \<Rightarrow> rng \<Rightarrow> error + (world \<times> rng)" where
  "move_in_queue w i others delta_time g =
     (case current_cash_zone (agents w i) of
        None \<Rightarrow> Inr (w, g)
      | Some c \<Rightarrow>
          (case sorted_queue w c others of
             Inl e \<Rightarrow> Inl e
           | Inr queue \<Rightarrow>
               if queue \<noteq> [] \<and> hd queue = i then
                 Inr (put_agent w i ((agents w i)\<lparr>state := PAYING\<rparr>), g)
               else
                 (case queue_position (agents w i) of
                    None \<Rightarrow> Inr (w, g)
                  | Some q \<Rightarrow>
                      if q = 0 then Inr (w, g)
                      else
                        (case get_queue_position (zones w c) q (dimensions (agents w i)) (scale (agents w i)) of
                           Inl e \<Rightarrow> Inl e
                         | Inr target \<Rightarrow>
                             if distance_to (agents w i) target > speed (agents w i) * delta_time then
                               (case avoid_collisions (agents w) i others of
                                  Inl e \<Rightarrow> Inl e
                                | Inr avoid \<Rightarrow>
                                    let a1 = update_heading (agents w i) target avoid
                                    in Inr (put_agent w i
                                         (a1\<lparr>position := point_add (position a1)
                                              (fst (heading a1) * speed a1 * delta_time,
                                               snd (heading a1) * speed a1 * delta_time)\<rparr>), g))
                             else Inr (w, g)))))"

text \<open>The rest of the method, reached in the states \<open>WALKING\<close> and \<open>LEAVING\<close>: arrival when
  the destination is within \<open>speed * delta_time\<close>, a step along the heading otherwise.\<close>

definition arrive :: "world \<Rightarrow> nat \<Rightarrow> QPointF \<Rightarrow> rng \<Rightarrow> error + (world \<times> rng)" where
  "arrive w i d g =
     (let a1 = (agents w i)\<lparr>position := d\<rparr>;
          reselect = (case choose_next_target a1 (zones w) g of
                      Inl e \<Rightarrow> Inl e
                    | Inr (a2, zs, g1) \<Rightarrow> Inr (put_agent (w\<lparr>zones := zs\<rparr>) i a2, g1))
      in if state a1 = WALKING then
           (if cash_zones a1 = [] then
              (if d \<in> set (exit_points a1) then Inr (put_agent w i (a1\<lparr>state := FINISHED\<rparr>), g)
               else reselect)
            else Inr (put_agent w i (a1\<lparr>state := SHOPPING\<rparr>), g))
         else if state a1 = LEAVING then
           (if d \<in> set (exit_points a1) then Inr (put_agent w i (a1\<lparr>state := FINISHED\<rparr>), g)
            else Inr (put_agent w i a1, g))
         else reselect)"

definition advance :: "world \<Rightarrow> nat \<Rightarrow> nat list \<Rightarrow> QPointF \<Rightarrow> real \<Rightarrow> rng \<Rightarrow> error + (world \<times> rng)" where
  "advance w i others d delta_time g =
     (case avoid_collisions (agents w) i others of
        Inl e \<Rightarrow> Inl e
      | Inr avoid \<Rightarrow>
          let a1 = update_heading (agents w i) d avoid;
              step = real_speed a1 * scale a1 * speed a1 * delta_time
          in Inr (put_agent w i
               (a1\<lparr>position := point_add (position a1) (fst (heading a1) * step, snd (heading a1) * step)\<rparr>), g))"

definition move_walking :: "world \<Rightarrow> nat \<Rightarrow> nat list \<Rightarrow> real \<Rightarrow> rng \<Rightarrow> error + (world \<times> rng)" where
  "move_walking w i others delta_time g =
     (case destination (agents w i) of
        None \<Rightarrow> Inr (w, g)
      | Some d \<Rightarrow>
          if \<not> point_truthy d then Inr (w, g)
          else if distance_to (agents w i) d \<le> speed (agents w i) * delta_time then arrive w i d g
          else advance w i others d delta_time g)"

definition move_towards_target :: "world \<Rightarrow> nat \<Rightarrow> nat list \<Rightarrow> real \<Rightarrow> rng \<Rightarrow> error + (world \<times> rng)" where
  "move_towards_target w i others delta_time g =
     (if state (agents w i) = FINISHED then Inr (w, g)
      else if state (agents w i) = SHOPPING then move_shopping w i delta_time g
      else if state (agents w i) = PAYING then move_paying w i delta_time g
      else if state (agents w i) = IN_QUEUE then move_in_queue w i others delta_time g
      else move_walking w i others delta_time g)"


subsection \<open>Construction of an agent\<close>

text \<open>
  \<open>Agent.__init__\<close>: takes the next identity, draws the service time and the five
  coefficients in the order of the source, and chooses the first target. \<open>fresh_agent\<close> is
  the agent as the assignments leave it before the call of \<open>_choose_next_target\<close>.
  \<open>Agent_init\<close> returns the world with the new agent stored at its identity, and that
  identity.
\<close>

definition fresh_agent ::
  "nat \<Rightarrow> QPointF \<Rightarrow> nat list \<Rightarrow> nat list \<Rightarrow> QPointF list \<Rightarrow> BehaviorType \<Rightarrow> BudgetLevel
     \<Rightarrow> real \<Rightarrow> real \<Rightarrow> rng \<Rightarrow> Agent \<times> rng" where
  "fresh_agent ident start_pos store_zones cash_zs exit_pts beh bud scl spd g =
     (case random_uniform 30 120 g of (st, g1) \<Rightarrow>
      case random_uniform 0.2 1.0 g1 of (rs, g2) \<Rightarrow>
      case random_uniform 0.2 1.0 g2 of (cs, g3) \<Rightarrow>
      case random_uniform 0.2 1.0 g3 of (iv, g4) \<Rightarrow>
      case random_uniform 0.2 1.0 g4 of (aew, g5) \<Rightarrow>
      case random_uniform 0.0 0.5 g5 of (ip, g6) \<Rightarrow>
        (\<lparr>agent_id = ident, position = start_pos,
          dimensions = get_dimensions beh, scale = scl, real_speed = 1000,
          speed = (if beh = FAMILY then spd * 0.7 else spd),
          heading = (1, 0), desired_heading = (1, 0),
          behavior = beh, budget = bud,
          all_zones = store_zones, unvisited_zones = store_zones,
          cash_zones = cash_zs, exit_points = exit_pts,
          state = WALKING, destination = None,
          shopping_time = 0, payment_time = 0,
          min_shopping_time = 5, max_shopping_time = 30, service_time = st,
          current_cash_zone = None, queue_position = None,
          reward_sensitivity = rs, cost_sensitivity = cs, imagery_vividness = iv,
          anticipatory_emotion_weight = aew, impulse_prob = ip,
          entry_heading = (1, 0), first_move = True, visited_zones = []\<rparr>, g6))"

definition Agent_init ::
  "world \<Rightarrow> QPointF \<Rightarrow> nat list \<Rightarrow> nat list \<Rightarrow> QPointF list \<Rightarrow> BehaviorType \<Rightarrow> BudgetLevel
     \<Rightarrow> real \<Rightarrow> real \<Rightarrow> rng \<Rightarrow> error + (world \<times> nat \<times> rng)" where
  "Agent_init w start_pos store_zones cash_zs exit_pts beh bud scl spd g =
     (case fresh_agent (id_counter w) start_pos store_zones cash_zs exit_pts beh bud scl spd g of
        (a0, g6) \<Rightarrow>
          (case choose_next_target a0 (zones w) g6 of
             Inl e \<Rightarrow> Inl e
           | Inr (a1, zs, g7) \<Rightarrow>
               Inr (\<lparr>zones = zs, agents = (agents w)(id_counter w := a1),
                     id_counter = Suc (id_counter w)\<rparr>, id_counter w, g7)))"

section \<open>Groups and the population factory of agent_group.py\<close>

text \<open>
  The group types are the strings of \<open>AgentType\<close> (transliterated); \<open>SIZES.get(t, 1)\<close>
  gives 1 for any other key. The group's \<open>uuid\<close> and the attributes \<open>group_id\<close>,
  \<open>group_type\<close> and \<open>role\<close> it hangs on its members are left out: nothing reads them.
\<close>

definition INDIVIDUAL :: string where "INDIVIDUAL = ''odinokij''"
definition PAIR :: string where "PAIR = ''para''"
definition FAMILY_GROUP :: string where "FAMILY_GROUP = ''semja''"

definition SIZES_get :: "string \<Rightarrow> nat" where
  "SIZES_get t = (if t = INDIVIDUAL then 1 else if t = PAIR then 2 else if t = FAMILY_GROUP then 3 else 1)"

record AgentGroup =
  group_type :: string
  members :: "nat list"
  group_speed :: real

text \<open>The loop \<open>for role in range(size)\<close> of \<open>AgentGroup.__init__\<close>, \<open>n\<close> rounds to go.\<close>

fun make_members ::
  "nat \<Rightarrow> QPointF \<Rightarrow> nat list \<Rightarrow> nat list \<Rightarrow> QPointF list \<Rightarrow> BehaviorType \<Rightarrow> BudgetLevel
     \<Rightarrow> real \<Rightarrow> real \<Rightarrow> nat list \<Rightarrow> world \<Rightarrow> rng \<Rightarrow> error + (world \<times> nat list \<times> rng)" where
  "make_members 0 start_pos tz cz ep beh bud scl spd ms w g = Inr (w, ms, g)"
| "make_members (Suc n) start_pos tz cz ep beh bud scl spd ms w g =
     (case Agent_init w start_pos tz cz ep beh bud scl spd g of
        Inl e \<Rightarrow> Inl e
      | Inr (w1, i, g1) \<Rightarrow> make_members n start_pos tz cz ep beh bud scl spd (ms @ [i]) w1 g1)"

definition AgentGroup_init ::
  "world \<Rightarrow> string \<Rightarrow> QPointF \<Rightarrow> nat list \<Rightarrow> nat list \<Rightarrow> QPointF list \<Rightarrow> real \<Rightarrow> real \<Rightarrow> rng
     \<Rightarrow> error + (world \<times> AgentGroup \<times> rng)" where
  "AgentGroup_init w gt start_pos target_zones cash_zs exit_pts scl spd g =
     (case (if gt = INDIVIDUAL then random_choice [IMPULSIVE, TARGETED, EXPLORER, BUDGET] g
            else Inr (FAMILY, g)) of
        Inl e \<Rightarrow> Inl e
      | Inr (beh, g1) \<Rightarrow>
          (case random_choice [LOW, MEDIUM, HIGH] g1 of
             Inl e \<Rightarrow> Inl e
           | Inr (bud, g2) \<Rightarrow>
               (case make_members (SIZES_get gt) start_pos target_zones cash_zs exit_pts beh bud scl spd [] w g2 of
                  Inl e \<Rightarrow> Inl e
                | Inr (w1, ms, g3) \<Rightarrow>
                    Inr (w1, \<lparr>group_type = gt, members = ms, group_speed = spd\<rparr>, g3))))"

text \<open>One round of the follower loop of \<open>AgentGroup.update\<close>: \<open>cur\<close> steps towards \<open>prev\<close>.\<close>

definition follow_step :: "real \<Rightarrow> Agent \<Rightarrow> Agent \<Rightarrow> Agent" where
  "follow_step spd prev cur =
     (let direction = point_sub (position prev) (position cur);
          distance = sqrt ((fst direction)\<^sup>2 + (snd direction)\<^sup>2)
      in if distance > 0 then
           (let step = min spd distance
            in cur\<lparr>position := point_add (position cur)
                      (fst direction / distance * step, snd direction / distance * step)\<rparr>)
         else cur\<lparr>position := position prev\<rparr>)"

fun follow_loop :: "real \<Rightarrow> nat list \<Rightarrow> (nat \<Rightarrow> Agent) \<Rightarrow> (nat \<Rightarrow> Agent)" where
  "follow_loop spd [] ags = ags"
| "follow_loop spd [m] ags = ags"
| "follow_loop spd (p # c # rest) ags =
     follow_loop spd (c # rest) (ags(c := follow_step spd (ags p) (ags c)))"

definition AgentGroup_update :: "AgentGroup \<Rightarrow> world \<Rightarrow> rng \<Rightarrow> error + (world \<times> rng)" where
  "AgentGroup_update grp w g =
     (case members grp of
        [] \<Rightarrow> Inr (w, g)
      | leader # followers \<Rightarrow>
          (case move_towards_target w leader (members grp) 0.033 g of
             Inl e \<Rightarrow> Inl e
           | Inr (w1, g1) \<Rightarrow>
               Inr (w1\<lparr>agents := follow_loop (group_speed grp) (members grp) (agents w1)\<rparr>, g1)))"

text \<open>
  \<open>generate_agent_groups\<close>: \<open>make_groups\<close> is the inner loop \<open>for _ in range(count)\<close>, with
  the groups built so far; \<open>per_type\<close> the loop over \<open>distribution.items()\<close> (a dict, so an
  association list in insertion order), with \<open>used_agents\<close>.
\<close>

fun make_groups ::
  "nat \<Rightarrow> string \<Rightarrow> QPointF list \<Rightarrow> nat list \<Rightarrow> nat list \<Rightarrow> QPointF list \<Rightarrow> real \<Rightarrow> real
     \<Rightarrow> AgentGroup list \<Rightarrow> world \<Rightarrow> rng \<Rightarrow> error + (world \<times> AgentGroup list \<times> rng)" where
  "make_groups 0 gt entrances pz cz ep scl spd groups w g = Inr (w, groups, g)"
| "make_groups (Suc n) gt entrances pz cz ep scl spd groups w g =
     (case random_choice entrances g of
        Inl e \<Rightarrow> Inl e
      | Inr (start, g1) \<Rightarrow>
          (case AgentGroup_init w gt start pz cz ep scl spd g1 of
             Inl e \<Rightarrow> Inl e
           | Inr (w1, grp, g2) \<Rightarrow> make_groups n gt entrances pz cz ep scl spd (groups @ [grp]) w1 g2))"

definition group_count :: "int \<Rightarrow> real \<Rightarrow> nat \<Rightarrow> int" where
  "group_count total_agents pct sz = \<lfloor>real_of_int total_agents * pct / real sz\<rfloor>"

fun per_type ::
  "(string \<times> real) list \<Rightarrow> int \<Rightarrow> QPointF list \<Rightarrow> nat list \<Rightarrow> nat list \<Rightarrow> QPointF list \<Rightarrow> real \<Rightarrow> real
     \<Rightarrow> AgentGroup list \<Rightarrow> int \<Rightarrow> world \<Rightarrow> rng \<Rightarrow> error + (world \<times> AgentGroup list \<times> int \<times> rng)" where
  "per_type [] total_agents entrances pz cz ep scl spd groups used_agents w g =
     Inr (w, groups, used_agents, g)"
| "per_type ((gt, pct) # rest) total_agents entrances pz cz ep scl spd groups used_agents w g =
     (let count = group_count total_agents pct (SIZES_get gt)
      in case make_groups (nat count) gt entrances pz cz ep scl spd groups w g of
           Inl e \<Rightarrow> Inl e
         | Inr (w1, groups1, g1) \<Rightarrow>
             per_type rest total_agents entrances pz cz ep scl spd groups1
               (used_agents + int (nat count) * int (SIZES_get gt)) w1 g1)"

definition generate_agent_groups ::
  "int \<Rightarrow> (string \<times> real) list \<Rightarrow> QPointF list \<Rightarrow> nat list \<Rightarrow> nat list \<Rightarrow> QPointF list \<Rightarrow> real \<Rightarrow> real
     \<Rightarrow> world \<Rightarrow> rng \<Rightarrow> error + (world \<times> AgentGroup list \<times> rng)" where
  "generate_agent_groups total_agents distribution entrances pz cz ep scl spd w g =
     (case per_type distribution total_agents entrances pz cz ep scl spd [] 0 w g of
        Inl e \<Rightarrow> Inl e
      | Inr (w1, groups, used_agents, g1) \<Rightarrow>
          make_groups (nat (total_agents - used_agents)) INDIVIDUAL entrances pz cz ep scl spd groups w1 g1)"

section \<open>The tick of main.py\<close>

text \<open>
  \<open>update_loop\<close> walks \<open>self.agents\<close> once and moves every agent that is not finished,
  passing the whole list as \<open>others\<close>. \<open>todo\<close> is the part of the list still to walk.
\<close>

fun update_loop :: "nat list \<Rightarrow> nat list \<Rightarrow> real \<Rightarrow> world \<Rightarrow> rng \<Rightarrow> error + (world \<times> rng)" where
  "update_loop [] all_agents delta_time w g = Inr (w, g)"
| "update_loop (i # todo) all_agents delta_time w g =
     (if finished (agents w i) then update_loop todo all_agents delta_time w g
      else
        (case move_towards_target w i all_agents delta_time g of
           Inl e \<Rightarrow> Inl e
         | Inr (w1, g1) \<Rightarrow> update_loop todo all_agents delta_time w1 g1))"


section \<open>Reachable worlds\<close>

text \<open>
  A run starts with no agent and with zones as \<open>StoreZone.__init__\<close> leaves their queue
  counter (the capacity may have been configured to any value from 0 on). From there the
  program constructs agents, moves an existing agent against any list of agents, and
  updates a group of existing agents. \<open>AgentGroup.__init__\<close>, \<open>generate_agent_groups\<close> and
  the tick are sequences of these.
\<close>

definition valid_rng :: "rng \<Rightarrow> bool" where
  "valid_rng g = (\<forall>n. 0 \<le> floats g n \<and> floats g n < 1)"

definition initial :: "world \<Rightarrow> bool" where
  "initial w =
     (id_counter w = 0 \<and>
      (\<forall>z. queue_length (zones w z) = 0 \<and> 0 \<le> max_queue_length (zones w z)))"

inductive reachable :: "world \<Rightarrow> bool" where
  start: "initial w \<Longrightarrow> reachable w"
| construct:
    "reachable w \<Longrightarrow> valid_rng g
       \<Longrightarrow> Agent_init w start_pos store_zones cash_zs exit_pts beh bud scl spd g = Inr (w', i, g')
       \<Longrightarrow> reachable w'"
| move:
    "reachable w \<Longrightarrow> valid_rng g \<Longrightarrow> i < id_counter w
       \<Longrightarrow> move_towards_target w i others delta_time g = Inr (w', g')
       \<Longrightarrow> reachable w'"
| update:
    "reachable w \<Longrightarrow> valid_rng g \<Longrightarrow> list_all (\<lambda>m. m < id_counter w) (members grp)
       \<Longrightarrow> AgentGroup_update grp w g = Inr (w', g') \<Longrightarrow> reachable w'"

text \<open>
  What holds of every agent of a reachable world (shown below): its zones are split
  between the unvisited and the visited ones, its service time is positive, its payment
  timer runs only while it pays and stays below the service time, and it holds no
  checkout zone while it walks or shops.
\<close>

definition agent_ok :: "Agent \<Rightarrow> bool" where
  "agent_ok a =
     (mset (unvisited_zones a) + mset (visited_zones a) = mset (all_zones a) \<and>
      0 < service_time a \<and>
      (if state a = PAYING then payment_time a < service_time a else payment_time a = 0) \<and>
      (if state a = WALKING \<or> state a = SHOPPING then current_cash_zone a = None else True))"

text \<open>The agents constructed so far that hold zone \<open>z\<close>, and the invariant of the queue
  counters: each counter covers the holders of its zone and stays within the capacity.\<close>

definition holders :: "world \<Rightarrow> nat \<Rightarrow> nat set" where
  "holders w z = {i. i < id_counter w \<and> current_cash_zone (agents w i) = Some z}"

definition queues_ok :: "world \<Rightarrow> bool" where
  "queues_ok w =
     (\<forall>z. int (card (holders w z)) \<le> queue_length (zones w z) \<and>
          queue_length (zones w z) \<le> max_queue_length (zones w z))"

definition world_ok :: "world \<Rightarrow> bool" where
  "world_ok w = (queues_ok w \<and> (\<forall>i. i < id_counter w \<longrightarrow> agent_ok (agents w i)))"

text \<open>
  How a step of agent \<open>i\<close> may relate two worlds: no other agent and no identity changes,
  the agent stays well-formed, and either the zone store and the zone the agent holds are
  as before, or the agent, holding none, joins a zone with room, or it releases its zone.
\<close>

definition zone_delta :: "world \<Rightarrow> nat \<Rightarrow> world \<Rightarrow> bool" where
  "zone_delta w i w' =
     ((zones w' = zones w \<and> current_cash_zone (agents w' i) = current_cash_zone (agents w i)) \<or>
      (\<exists>c. current_cash_zone (agents w i) = None \<and> current_cash_zone (agents w' i) = Some c \<and>
           can_join_queue (zones w c) \<and>
           zones w' = (zones w)(c := (zones w c)\<lparr>queue_length := queue_length (zones w c) + 1\<rparr>)) \<or>
      (\<exists>c. current_cash_zone (agents w i) = Some c \<and> current_cash_zone (agents w' i) = None \<and>
           zones w' = (zones w)(c := (zones w c)\<lparr>queue_length := queue_length (zones w c) - 1\<rparr>)))"

definition step_ok :: "world \<Rightarrow> nat \<Rightarrow> world \<Rightarrow> bool" where
  "step_ok w i w' =
     (id_counter w' = id_counter w \<and> (\<forall>j. j \<noteq> i \<longrightarrow> agents w' j = agents w j) \<and>
      agent_ok (agents w' i) \<and> zone_delta w i w')"

text \<open>
  A group as \<open>AgentGroup.__init__\<close> leaves it: as many members as its type says, all of
  them constructed, with the behaviour the constructor gives by type.
\<close>

definition group_ok :: "world \<Rightarrow> AgentGroup \<Rightarrow> bool" where
  "group_ok w grp =
     (length (members grp) = SIZES_get (group_type grp) \<and>
      list_all (\<lambda>m. m < id_counter w \<and>
                  (if group_type grp = INDIVIDUAL
                   then behavior (agents w m) \<in> set [IMPULSIVE, TARGETED, EXPLORER, BUDGET]
                   else behavior (agents w m) = FAMILY)) (members grp))"

text \<open>The world has grown from \<open>w\<close> to \<open>w'\<close> by \<open>n\<close> agents, the earlier ones untouched.\<close>

definition grown :: "world \<Rightarrow> nat \<Rightarrow> world \<Rightarrow> bool" where
  "grown w n w' =
     (id_counter w' = id_counter w + n \<and> list_all (\<lambda>j. agents w' j = agents w j) [0..<id_counter w])"

text \<open>
  What the factory is to build for a distribution, in the words of its description: for
  each type \<open>floor(total * share / size)\<close> groups, in the order of the distribution; and
  the number of agents these groups hold.
\<close>

definition planned_types :: "int \<Rightarrow> (string \<times> real) list \<Rightarrow> string list" where
  "planned_types total_agents distribution =
     concat (map (\<lambda>(t, pct). replicate (nat \<lfloor>real_of_int total_agents * pct / real (SIZES_get t)\<rfloor>) t)
               distribution)"

definition planned_agents :: "int \<Rightarrow> (string \<times> real) list \<Rightarrow> nat" where
  "planned_agents total_agents distribution =
     sum_list (map (\<lambda>(t, pct). nat \<lfloor>real_of_int total_agents * pct / real (SIZES_get t)\<rfloor> * SIZES_get t)
                 distribution)"

section \<open>Concrete runs\<close>

text \<open>
  A generator whose every draw is 0, a store in which every address holds a checkout
  zone at the origin as the constructor makes it, and \<open>queue_up\<close>: the construction of a
  shopper with no product zone to visit, who therefore heads for checkout zone 0 at once.
\<close>

definition fixed_rng :: rng where
  "fixed_rng = \<lparr>floats = (\<lambda>_. 0), picks = (\<lambda>_. 0)\<rparr>"

definition blank_agent :: Agent where
  "blank_agent =
     \<lparr>agent_id = 0, position = (0, 0), dimensions = get_dimensions TARGETED, scale = 1,
      real_speed = 1000, speed = 1, heading = (1, 0), desired_heading = (1, 0),
      behavior = TARGETED, budget = MEDIUM, all_zones = [], unvisited_zones = [],
      cash_zones = [], exit_points = [], state = FINISHED, destination = None,
      shopping_time = 0, payment_time = 0, min_shopping_time = 5, max_shopping_time = 30,
      service_time = 30, current_cash_zone = None, queue_position = None,
      reward_sensitivity = 0.2, cost_sensitivity = 0.2, imagery_vividness = 0.2,
      anticipatory_emotion_weight = 0.2, impulse_prob = 0, entry_heading = (1, 0),
      first_move = False, visited_zones = []\<rparr>"

definition checkout_world :: world where
  "checkout_world =
     \<lparr>zones = (\<lambda>_. StoreZone_init ''kassa'' \<lparr>rect_x = 0, rect_y = 0, rect_w = 0, rect_h = 0\<rparr> 1 None),
      agents = (\<lambda>_. blank_agent), id_counter = 0\<rparr>"

definition queue_up :: "world \<Rightarrow> error + (world \<times> nat \<times> rng)" where
  "queue_up w = Agent_init w (0, 0) [] [0] [(5, 5)] TARGETED MEDIUM 1 1 fixed_rng"

text \<open>
  A store with a product zone at (3, 4) under address 1, and the construction of a shopper
  who starts on that zone, has it as the only zone to visit and pays at checkout zone 0.
  \<open>crowd n\<close> constructs \<open>n\<close> shoppers who queue up at once.
\<close>

definition shop_world :: world where
  "shop_world =
     checkout_world\<lparr>zones := (zones checkout_world)
       (1 := StoreZone_init ''tovary'' \<lparr>rect_x = 3, rect_y = 4, rect_w = 0, rect_h = 0\<rparr> 1 None)\<rparr>"

definition enter_shop :: "world \<Rightarrow> error + (world \<times> nat \<times> rng)" where
  "enter_shop w = Agent_init w (3, 4) [1] [0] [(5, 5)] TARGETED MEDIUM 1 1 fixed_rng"

fun crowd :: "nat \<Rightarrow> world \<Rightarrow> error + world" where
  "crowd 0 w = Inr w"
| "crowd (Suc n) w = (case queue_up w of Inl e \<Rightarrow> Inl e | Inr (w', i, g) \<Rightarrow> crowd n w')"

text \<open>A shopper who has visited everything and still shops, and a store whose checkout
  zones are all full.\<close>

definition done_shopper :: Agent where
  "done_shopper = blank_agent\<lparr>state := SHOPPING, cash_zones := [0], destination := Some (3, 4)\<rparr>"

definition saturated_store :: zone_store where
  "saturated_store =
     (\<lambda>_. (StoreZone_init ''kassa'' \<lparr>rect_x = 0, rect_y = 0, rect_w = 0, rect_h = 0\<rparr> 1 None)
             \<lparr>queue_length := 5\<rparr>)"

text \<open>
  A store with three product zones of attractiveness 0.8, 1.5 and 1.1 under the addresses
  1, 2 and 3. Seen from the origin with the entry heading (1, 0), only zone 1 lies to the
  right. \<open>bargain_hunter\<close> is a \<open>LOW\<close> budget shopper past the first selection with all
  three zones unvisited.
\<close>

definition product_zone :: "real \<Rightarrow> real \<Rightarrow> real \<Rightarrow> StoreZone" where
  "product_zone x y attr =
     StoreZone_init ''tovary'' \<lparr>rect_x = x, rect_y = y, rect_w = 0, rect_h = 0\<rparr> attr None"



text \<open>Stores with one product zone, 10 and 1000 units to the right of the places where the
  shoppers below are constructed.\<close>

definition near_world :: world where
  "near_world = checkout_world\<lparr>zones := (zones checkout_world)(1 := product_zone 10 0 1)\<rparr>"

definition far_world :: world where
  "far_world = checkout_world\<lparr>zones := (zones checkout_world)(1 := product_zone 1100 0 1)\<rparr>"

text \<open>The distance between two points, as \<open>AgentGroup.update\<close> computes it.\<close>

definition point_dist :: "QPointF \<Rightarrow> QPointF \<Rightarrow> real" where
  "point_dist p q = sqrt ((fst (point_sub p q))\<^sup>2 + (snd (point_sub p q))\<^sup>2)"


section \<open>Properties\<close>

subsection \<open>The weighted choice returns one of its candidates\<close>

lemma zone_weights_length: "zone_weights a zs zl g = (ws, g') \<Longrightarrow> length ws = length zl"
  by (induction zl arbitrary: g ws g') (auto split: prod.splits)

lemma roulette_mem: "roulette zw r = Some z \<Longrightarrow> z \<in> fst ` set zw"
  by (induction zw r rule: roulette.induct) (auto split: if_splits)

lemma random_choice_mem:
  "xs \<noteq> [] \<Longrightarrow> \<exists>x g'. random_choice xs g = Inr (x, g') \<and> x \<in> set xs"
  by (simp add: random_choice_def)

lemma weighted_choice_mem:
  assumes "zl \<noteq> []"
  shows "\<exists>z g'. weighted_choice a zs zl g = Inr (z, g') \<and> z \<in> set zl"
proof -
  obtain ws g1 where zw: "zone_weights a zs zl g = (ws, g1)"
    by (cases "zone_weights a zs zl g")
  show ?thesis
  proof (cases "sum_list ws \<le> 0")
    case True
    then show ?thesis using zw random_choice_mem [OF assms, of g1]
      by (auto simp: weighted_choice_def)
  next
    case False
    obtain r g2 where ru: "random_uniform 0 (sum_list ws) g1 = (r, g2)"
      by (cases "random_uniform 0 (sum_list ws) g1")
    show ?thesis
    proof (cases "roulette (zip zl ws) r")
      case None
      then show ?thesis using zw False ru assms by (auto simp: weighted_choice_def)
    next
      case (Some z)
      then have "z \<in> fst ` set (zip zl ws)" by (rule roulette_mem)
      then have "z \<in> set zl" by (auto dest: set_zip_leftD)
      then show ?thesis using zw False ru Some by (auto simp: weighted_choice_def)
    qed
  qed
qed

lemma budget_filter_subset: "set (budget_filter a zs zl) \<subseteq> set zl"
  by (auto simp: budget_filter_def Let_def)

lemma budget_filter_nonempty: "zl \<noteq> [] \<Longrightarrow> budget_filter a zs zl \<noteq> []"
  by (auto simp: budget_filter_def Let_def)

lemma zones_to_right_subset: "set (zones_to_right a zs zl) \<subseteq> set zl"
  by (auto simp: zones_to_right_def)

lemma candidates_subset: "set (candidates a zs) \<subseteq> set (unvisited_zones a)"
  using zones_to_right_subset by (auto simp: candidates_def Let_def)

lemma candidates_nonempty: "unvisited_zones a \<noteq> [] \<Longrightarrow> candidates a zs \<noteq> []"
  by (auto simp: candidates_def Let_def)

lemma choose_product_zone_some:
  assumes "unvisited_zones a \<noteq> []"
  shows "\<exists>z g'. z \<in> set (budget_filter a zs (candidates a zs)) \<and>
           choose_product_zone a zs g =
             Inr (a\<lparr>first_move := False, destination := Some (center (zs z)),
                    visited_zones := visited_zones a @ [z],
                    unvisited_zones := remove1 z (unvisited_zones a),
                    state := WALKING\<rparr>, zs, g')"
proof -
  let ?a1 = "if first_move a then a\<lparr>first_move := False\<rparr> else a"
  have bf: "budget_filter ?a1 zs (candidates a zs) = budget_filter a zs (candidates a zs)"
    by (simp add: budget_filter_def)
  have ne: "budget_filter a zs (candidates a zs) \<noteq> []"
    using assms by (simp add: budget_filter_nonempty candidates_nonempty)
  obtain z g' where wc: "weighted_choice ?a1 zs (budget_filter a zs (candidates a zs)) g = Inr (z, g')"
    and zin: "z \<in> set (budget_filter a zs (candidates a zs))"
    using weighted_choice_mem [OF ne] by blast
  have "z \<in> set (unvisited_zones a)"
    using zin budget_filter_subset candidates_subset by blast
  then show ?thesis using assms wc zin bf
    apply (intro exI [of _ z] exI [of _ g'])
    apply (simp add: choose_product_zone_def Let_def split del: if_split)
    apply (simp split: if_splits)
    done
qed

lemma choose_product_zone_none:
  "unvisited_zones a = [] \<Longrightarrow>
     choose_product_zone a zs g = Inr (a\<lparr>state := FINISHED, destination := None\<rparr>, zs, g)"
  by (simp add: choose_product_zone_def)

lemma min_from_mem: "min_from lt b xs \<in> set (b # xs)"
  by (induction xs arbitrary: b) (auto split: if_splits)

lemma py_min_key_mem: "py_min_key lt xs = Inr x \<Longrightarrow> x \<in> set xs"
  using min_from_mem [of lt] by (auto simp: py_min_key_def split: list.splits)

lemma py_min_key_some: "xs \<noteq> [] \<Longrightarrow> \<exists>x. py_min_key lt xs = Inr x"
  by (auto simp: py_min_key_def split: list.splits)

lemma choose_next_target_leaving:
  assumes "state a = LEAVING" "choose_next_target a zs g = Inr (a', zs', g')"
  shows "zs' = zs \<and> g' = g \<and> (\<exists>p. p \<in> set (exit_points a) \<and> a' = a\<lparr>destination := Some p\<rparr>)"
  using assms by (auto simp: choose_next_target_def split: sum.splits dest: py_min_key_mem)

lemma choose_next_target_products:
  assumes "state a \<noteq> LEAVING" "unvisited_zones a \<noteq> []"
  shows "\<exists>z g'. z \<in> set (budget_filter a zs (candidates a zs)) \<and>
           choose_next_target a zs g =
             Inr (a\<lparr>first_move := False, destination := Some (center (zs z)),
                    visited_zones := visited_zones a @ [z],
                    unvisited_zones := remove1 z (unvisited_zones a),
                    state := WALKING\<rparr>, zs, g')"
  using assms choose_product_zone_some [of a zs g] by (simp add: choose_next_target_def)

lemma choose_next_target_no_cash:
  assumes "state a \<noteq> LEAVING" "unvisited_zones a = []" "cash_zones a = []"
  shows "choose_next_target a zs g = Inr (a\<lparr>state := FINISHED, destination := None\<rparr>, zs, g)"
  using assms by (simp add: choose_next_target_def choose_product_zone_none)

lemma choose_next_target_full:
  assumes "state a \<noteq> LEAVING" "unvisited_zones a = []"
    and "filter (\<lambda>cz. can_join_queue (zs cz)) (cash_zones a) = []"
  shows "choose_next_target a zs g = Inr (a\<lparr>state := FINISHED, destination := None\<rparr>, zs, g)"
  using assms by (simp add: choose_next_target_def choose_product_zone_none)

lemma choose_next_target_join:
  assumes "state a \<noteq> LEAVING" "unvisited_zones a = []"
    and "filter (\<lambda>cz. can_join_queue (zs cz)) (cash_zones a) \<noteq> []"
    and "choose_next_target a zs g = Inr (a', zs', g')"
  shows "\<exists>c. c \<in> set (cash_zones a) \<and> can_join_queue (zs c) \<and> g' = g \<and>
           zs' = zs(c := (zs c)\<lparr>queue_length := queue_length (zs c) + 1\<rparr>) \<and>
           ((\<exists>d. 0 < queue_length (zs c) + 1 \<and>
                 a' = a\<lparr>current_cash_zone := Some c, queue_position := Some (queue_length (zs c) + 1),
                        destination := Some d, state := IN_QUEUE\<rparr>) \<or>
            (queue_length (zs c) + 1 \<le> 0 \<and>
             a' = a\<lparr>current_cash_zone := Some c, queue_position := Some (queue_length (zs c) + 1),
                    state := FINISHED, destination := None\<rparr>))"
proof -
  let ?av = "filter (\<lambda>cz. can_join_queue (zs cz)) (cash_zones a)"
  obtain c where c: "py_min_key (cash_key_less a zs) ?av = Inr c"
    using py_min_key_some [OF assms(3)] by blast
  then have cin: "c \<in> set ?av" by (rule py_min_key_mem)
  then have cj: "can_join_queue (zs c)" and cc: "c \<in> set (cash_zones a)" by auto
  have ne: "cash_zones a \<noteq> []" using cc by auto
  show ?thesis
    using assms(1,2,4) ne assms(3) c cj cc
    apply (intro exI [of _ c])
    apply (simp add: choose_next_target_def join_queue_def Let_def choose_product_zone_none
        split: sum.splits if_splits)
    apply auto
    done
qed

subsection \<open>Evaluating concrete runs\<close>

lemma random_uniform_fixed: "random_uniform a b fixed_rng = (a, fixed_rng)"
  by (simp add: random_uniform_def random_random_def fixed_rng_def)

lemma random_random_fixed: "random_random fixed_rng = (0, fixed_rng)"
  by (simp add: random_random_def fixed_rng_def)

lemma valid_fixed_rng: "valid_rng fixed_rng"
  by (simp add: valid_rng_def fixed_rng_def)

lemma initial_checkout_world: "initial checkout_world"
  by (simp add: initial_def checkout_world_def StoreZone_init_def)

lemma initial_shop_world: "initial shop_world"
  by (simp add: initial_def shop_world_def checkout_world_def StoreZone_init_def)

lemmas run_defs = Agent_init_def fresh_agent_def choose_next_target_def StoreZone_init_def can_join_queue_def
     py_min_key_def join_queue_def get_queue_position_def Let_def get_dimensions_def
     move_towards_target_def move_in_queue_def move_paying_def move_shopping_def move_walking_def
     arrive_def sorted_queue_def waiting_at_def
     slot_key_def put_agent_def point_add_def point_sub_def rect_center_def center_def
     queue_up_def checkout_world_def random_uniform_fixed random_random_fixed
     shop_world_def enter_shop_def choose_product_zone_def candidates_def zones_to_right_def
     budget_filter_def weighted_choice_def zone_weight_def distance_to_def point_truthy_def
     finished_def

subsection \<open>C1: saturated checkouts\<close>

text \<open>
  C1, as stated, fails. A shopper constructed on the only product zone arrives and shops;
  five more shoppers fill checkout zone 0 (capacity 5); at the shopper's next re-selection
  every checkout is full, and the code falls through to its last two lines: the shopper
  is \<open>FINISHED\<close> and has no destination, where the claim has the state and the destination
  retained.
\<close>

theorem saturated_checkout_finishes_shopper:
  "(case enter_shop shop_world of Inl e \<Rightarrow> False | Inr (w1, x, g1) \<Rightarrow>
    (case move_towards_target w1 x [x] 1 fixed_rng of Inl e \<Rightarrow> False | Inr (w2, g2) \<Rightarrow>
    (case crowd 5 w2 of Inl e \<Rightarrow> False | Inr w3 \<Rightarrow>
    (case move_towards_target w3 x [x] 10 fixed_rng of Inl e \<Rightarrow> False | Inr (w4, g4) \<Rightarrow>
       unvisited_zones (agents w3 x) = [] \<and> cash_zones (agents w3 x) = [0] \<and>
       queue_length (zones w3 0) = 5 \<and> max_queue_length (zones w3 0) = 5 \<and>
       state (agents w3 x) = SHOPPING \<and> destination (agents w3 x) = Some (3, 4) \<and>
       state (agents w4 x) = FINISHED \<and> destination (agents w4 x) = None))))"
  by (simp add: run_defs eval_nat_numeral)

text \<open>
  C1, amended: for an agent that is not leaving, has no unvisited zone and has checkout
  zones, if every checkout zone is full then target re-selection raises nothing, changes
  no zone and draws nothing, and it sets the agent \<open>FINISHED\<close> with no destination: the
  agent leaves the simulation unserved and does not retry.
\<close>

theorem choose_next_target_saturated:
  assumes "state a \<noteq> LEAVING" and "unvisited_zones a = []" and "cash_zones a \<noteq> []"
    and "\<forall>c\<in>set (cash_zones a). max_queue_length (zs c) \<le> queue_length (zs c)"
  shows "choose_next_target a zs g = Inr (a\<lparr>state := FINISHED, destination := None\<rparr>, zs, g)"
proof -
  have "filter (\<lambda>cz. can_join_queue (zs cz)) (cash_zones a) = []"
    using assms(4) by (auto simp: can_join_queue_def filter_empty_conv)
  then show ?thesis using assms(1,2) by (rule choose_next_target_full [rotated 2])
qed

theorem choose_next_target_saturated_witness:
  "state done_shopper \<noteq> LEAVING \<and> unvisited_zones done_shopper = [] \<and>
   cash_zones done_shopper = [0] \<and>
   max_queue_length (saturated_store 0) = 5 \<and> queue_length (saturated_store 0) = 5 \<and>
   choose_next_target done_shopper saturated_store fixed_rng =
     Inr (done_shopper\<lparr>state := FINISHED, destination := None\<rparr>, saturated_store, fixed_rng)"
  using choose_next_target_saturated [of done_shopper saturated_store fixed_rng]
  by (simp add: done_shopper_def blank_agent_def saturated_store_def StoreZone_init_def)

subsection \<open>C10: queue slots are counter values\<close>


lemma duplicate_slot_run:
  "(case queue_up checkout_world of Inl e \<Rightarrow> False | Inr (w1, a, g1) \<Rightarrow>
    (case queue_up w1 of Inl e \<Rightarrow> False | Inr (w2, b, g2) \<Rightarrow>
    (case move_towards_target w2 a [a, b] 0.033 fixed_rng of Inl e \<Rightarrow> False | Inr (w3, g3) \<Rightarrow>
    (case move_towards_target w3 a [a, b] 200 fixed_rng of Inl e \<Rightarrow> False | Inr (w4, g4) \<Rightarrow>
    (case queue_up w4 of Inl e \<Rightarrow> False | Inr (w5, c, g5) \<Rightarrow>
       a < id_counter w2 \<and> a < id_counter w3 \<and> b < id_counter w5 \<and> c < id_counter w5 \<and>
       b \<noteq> c \<and> state (agents w5 b) = IN_QUEUE \<and> state (agents w5 c) = IN_QUEUE \<and>
       current_cash_zone (agents w5 b) = Some 0 \<and> current_cash_zone (agents w5 c) = Some 0 \<and>
       queue_position (agents w5 b) = Some 2 \<and> queue_position (agents w5 c) = Some 2)))))"
  by (simp add: run_defs)

text \<open>
  C10: \<open>join_queue\<close>, when it succeeds, returns the counter it has just incremented. So
  slots repeat: two shoppers queue at zone 0 (slots 1 and 2), the first is served and
  leaves (the counter falls to 1), and a third shopper who joins gets slot 2 while the
  second still waits with slot 2.
\<close>

theorem join_queue_slot_is_counter:
  "(\<forall>z. can_join_queue z \<longrightarrow>
        join_queue z = (z\<lparr>queue_length := queue_length z + 1\<rparr>, queue_length z + 1)) \<and>
   (\<exists>w b c z. reachable w \<and> b < id_counter w \<and> c < id_counter w \<and> b \<noteq> c \<and>
        state (agents w b) = IN_QUEUE \<and> state (agents w c) = IN_QUEUE \<and>
        current_cash_zone (agents w b) = Some z \<and> current_cash_zone (agents w c) = Some z \<and>
        queue_position (agents w b) = queue_position (agents w c))"
proof
  show "\<forall>z. can_join_queue z \<longrightarrow>
        join_queue z = (z\<lparr>queue_length := queue_length z + 1\<rparr>, queue_length z + 1)"
    by (simp add: join_queue_def)
next
  from duplicate_slot_run obtain w1 a g1 w2 b g2 w3 g3 w4 g4 w5 c g5 where
    s1: "queue_up checkout_world = Inr (w1, a, g1)" and
    s2: "queue_up w1 = Inr (w2, b, g2)" and
    s3: "move_towards_target w2 a [a, b] 0.033 fixed_rng = Inr (w3, g3)" and
    s4: "move_towards_target w3 a [a, b] 200 fixed_rng = Inr (w4, g4)" and
    s5: "queue_up w4 = Inr (w5, c, g5)" and
    fin: "a < id_counter w2" "a < id_counter w3" "b < id_counter w5" "c < id_counter w5" "b \<noteq> c"
      "state (agents w5 b) = IN_QUEUE" "state (agents w5 c) = IN_QUEUE"
      "current_cash_zone (agents w5 b) = Some 0" "current_cash_zone (agents w5 c) = Some 0"
      "queue_position (agents w5 b) = Some 2" "queue_position (agents w5 c) = Some 2"
    by (auto split: sum.splits prod.splits)
  have "reachable checkout_world" by (rule reachable.start) (rule initial_checkout_world)
  then have "reachable w1" using s1 unfolding queue_up_def
    by (rule reachable.construct [OF _ valid_fixed_rng])
  then have "reachable w2" using s2 unfolding queue_up_def
    by (rule reachable.construct [OF _ valid_fixed_rng])
  then have "reachable w3" using fin(1) s3 by (rule reachable.move [OF _ valid_fixed_rng])
  then have "reachable w4" using fin(2) s4 by (rule reachable.move [OF _ valid_fixed_rng])
  then have "reachable w5" using s5 unfolding queue_up_def
    by (rule reachable.construct [OF _ valid_fixed_rng])
  then show "\<exists>w b c z. reachable w \<and> b < id_counter w \<and> c < id_counter w \<and> b \<noteq> c \<and>
        state (agents w b) = IN_QUEUE \<and> state (agents w c) = IN_QUEUE \<and>
        current_cash_zone (agents w b) = Some z \<and> current_cash_zone (agents w c) = Some z \<and>
        queue_position (agents w b) = queue_position (agents w c)"
    using fin by (intro exI [of _ w5] exI [of _ b] exI [of _ c] exI [of _ 0]) simp
qed

theorem join_queue_slot_is_counter_witness:
  "can_join_queue (zones checkout_world 0) \<and>
   join_queue (zones checkout_world 0) = ((zones checkout_world 0)\<lparr>queue_length := 1\<rparr>, 1)"
  using join_queue_slot_is_counter
  by (simp add: checkout_world_def StoreZone_init_def can_join_queue_def)

subsection \<open>C6: the budget filter\<close>






subsection \<open>Frame lemmas\<close>

lemma choose_next_target_elim:
  assumes "choose_next_target a zs g = Inr (a', zs', g')"
  obtains
    (leaving) p where "state a = LEAVING" "zs' = zs" "a' = a\<lparr>destination := Some p\<rparr>"
  | (product) z where "state a \<noteq> LEAVING" "z \<in> set (unvisited_zones a)" "zs' = zs"
      "a' = a\<lparr>first_move := False, destination := Some (center (zs z)),
                visited_zones := visited_zones a @ [z],
                unvisited_zones := remove1 z (unvisited_zones a), state := WALKING\<rparr>"
  | (finish) "state a \<noteq> LEAVING" "unvisited_zones a = []" "zs' = zs"
      "a' = a\<lparr>state := FINISHED, destination := None\<rparr>"
  | (join) c d s where "state a \<noteq> LEAVING" "unvisited_zones a = []" "c \<in> set (cash_zones a)"
      "can_join_queue (zs c)" "zs' = zs(c := (zs c)\<lparr>queue_length := queue_length (zs c) + 1\<rparr>)"
      "s = IN_QUEUE \<or> s = FINISHED"
      "a' = a\<lparr>current_cash_zone := Some c, queue_position := Some (queue_length (zs c) + 1),
                destination := d, state := s\<rparr>"
proof (cases "state a = LEAVING")
  case True
  then show ?thesis using choose_next_target_leaving [OF True assms] leaving by blast
next
  case nl: False
  show ?thesis
  proof (cases "unvisited_zones a = []")
    case False
    obtain z g1 where z: "z \<in> set (budget_filter a zs (candidates a zs))"
      and r: "choose_next_target a zs g =
             Inr (a\<lparr>first_move := False, destination := Some (center (zs z)),
                    visited_zones := visited_zones a @ [z],
                    unvisited_zones := remove1 z (unvisited_zones a),
                    state := WALKING\<rparr>, zs, g1)"
      using choose_next_target_products [OF nl False] by blast
    have "z \<in> set (unvisited_zones a)" using z budget_filter_subset candidates_subset by blast
    then show ?thesis using product [of z] nl r assms by simp
  next
    case True
    show ?thesis
    proof (cases "filter (\<lambda>cz. can_join_queue (zs cz)) (cash_zones a) = []")
      case e: True
      show ?thesis using finish nl True choose_next_target_full [OF nl True e, of g] assms by simp
    next
      case ne: False
      from choose_next_target_join [OF nl True ne assms]
      obtain c where c: "c \<in> set (cash_zones a)" "can_join_queue (zs c)"
        "zs' = zs(c := (zs c)\<lparr>queue_length := queue_length (zs c) + 1\<rparr>)"
        and d: "(\<exists>d. 0 < queue_length (zs c) + 1 \<and>
                 a' = a\<lparr>current_cash_zone := Some c, queue_position := Some (queue_length (zs c) + 1),
                        destination := Some d, state := IN_QUEUE\<rparr>) \<or>
            (queue_length (zs c) + 1 \<le> 0 \<and>
             a' = a\<lparr>current_cash_zone := Some c, queue_position := Some (queue_length (zs c) + 1),
                    state := FINISHED, destination := None\<rparr>)"
        by blast
      from d show ?thesis
      proof
        assume "\<exists>d. 0 < queue_length (zs c) + 1 \<and>
                 a' = a\<lparr>current_cash_zone := Some c, queue_position := Some (queue_length (zs c) + 1),
                        destination := Some d, state := IN_QUEUE\<rparr>"
        then obtain d where "a' = a\<lparr>current_cash_zone := Some c, queue_position := Some (queue_length (zs c) + 1),
                        destination := Some d, state := IN_QUEUE\<rparr>" by blast
        then show ?thesis using join [of c IN_QUEUE "Some d"] nl True c by simp
      next
        assume "queue_length (zs c) + 1 \<le> 0 \<and>
             a' = a\<lparr>current_cash_zone := Some c, queue_position := Some (queue_length (zs c) + 1),
                    state := FINISHED, destination := None\<rparr>"
        then show ?thesis using join [of c FINISHED None] nl True c by simp
      qed
    qed
  qed
qed

lemma update_heading_frame:
  "\<exists>h dh. update_heading a t v = a\<lparr>heading := h, desired_heading := dh\<rparr>"
proof -
  have "update_heading a t v =
          a\<lparr>heading := heading (update_heading a t v),
            desired_heading := desired_heading (update_heading a t v)\<rparr>"
    by (simp add: update_heading_def Let_def)
  then show ?thesis by blast
qed

lemma split_zones_set:
  assumes "mset u + mset v = mset w"
  shows "set w = set u \<union> set v"
proof -
  have "set_mset (mset u + mset v) = set_mset (mset w)" using assms by simp
  then show ?thesis by simp
qed

lemma agent_ok_choose:
  assumes "agent_ok a" "state a = WALKING \<or> state a = SHOPPING \<or> state a = LEAVING"
    and "choose_next_target a zs g = Inr (a', zs', g')"
  shows "agent_ok a'"
  using assms(3)
proof (cases rule: choose_next_target_elim)
  case (leaving p)
  then show ?thesis using assms(1) by (simp add: agent_ok_def)
next
  case (product z)
  have "z \<in> set (all_zones a)"
    using product(2) assms(1) split_zones_set [of "unvisited_zones a" "visited_zones a" "all_zones a"]
    by (simp add: agent_ok_def)
  then show ?thesis using product assms(1,2) by (auto simp: agent_ok_def)
next
  case finish
  then show ?thesis using assms(1,2) by (auto simp: agent_ok_def)
next
  case (join c d s)
  then show ?thesis using assms(1,2) by (auto simp: agent_ok_def)
qed

lemma choose_zone_delta:
  assumes "choose_next_target a zs g = Inr (a', zs', g')"
    and "state a \<noteq> LEAVING \<Longrightarrow> current_cash_zone a = None"
  shows "(zs' = zs \<and> current_cash_zone a' = current_cash_zone a) \<or>
         (\<exists>c. current_cash_zone a = None \<and> current_cash_zone a' = Some c \<and> can_join_queue (zs c) \<and>
              zs' = zs(c := (zs c)\<lparr>queue_length := queue_length (zs c) + 1\<rparr>))"
  using assms(1)
proof (cases rule: choose_next_target_elim)
  case (join c d s)
  then show ?thesis using assms(2) by auto
qed auto

lemma step_ok_same:
  "agent_ok a \<Longrightarrow> current_cash_zone a = current_cash_zone (agents w i) \<Longrightarrow> step_ok w i (put_agent w i a)"
  by (simp add: step_ok_def zone_delta_def put_agent_def)

lemma step_ok_refl: "agent_ok (agents w i) \<Longrightarrow> step_ok w i w"
  by (simp add: step_ok_def zone_delta_def)

lemma step_ok_choose:
  assumes "agent_ok a" "state a = WALKING \<or> state a = SHOPPING"
    and "current_cash_zone (agents w i) = None"
    and "choose_next_target a (zones w) g = Inr (a', zs', g')"
  shows "step_ok w i (put_agent (w\<lparr>zones := zs'\<rparr>) i a')"
proof -
  have none: "current_cash_zone a = None" using assms(1,2) by (auto simp: agent_ok_def)
  have "agent_ok a'" using assms(1,2,4) by (intro agent_ok_choose [OF assms(1) _ assms(4)]) auto
  moreover have "(zs' = zones w \<and> current_cash_zone a' = current_cash_zone a) \<or>
         (\<exists>c. current_cash_zone a = None \<and> current_cash_zone a' = Some c \<and> can_join_queue (zones w c) \<and>
              zs' = (zones w)(c := (zones w c)\<lparr>queue_length := queue_length (zones w c) + 1\<rparr>))"
    using none by (intro choose_zone_delta [OF assms(4)])
  ultimately show ?thesis using none assms(3)
    by (auto simp: step_ok_def zone_delta_def put_agent_def)
qed

lemma move_shopping_ok:
  assumes "agent_ok (agents w i)" "state (agents w i) = SHOPPING"
    and "move_shopping w i dt g = Inr (w', g')"
  shows "step_ok w i w'"
proof -
  let ?a1 = "(agents w i)\<lparr>shopping_time := shopping_time (agents w i) + dt\<rparr>"
  have ok1: "agent_ok ?a1" using assms(1) by (simp add: agent_ok_def)
  have ok0: "agent_ok (?a1\<lparr>shopping_time := 0\<rparr>)" using assms(1) by (simp add: agent_ok_def)
  have none: "current_cash_zone (agents w i) = None" using assms(1,2) by (simp add: agent_ok_def)
  show ?thesis
  proof (cases "\<exists>a2 zs g1 g2. choose_next_target (?a1\<lparr>shopping_time := 0\<rparr>) (zones w) g1 = Inr (a2, zs, g2)
                  \<and> w' = put_agent (w\<lparr>zones := zs\<rparr>) i a2")
    case True
    then obtain a2 zs g1 g2 where
      c: "choose_next_target (?a1\<lparr>shopping_time := 0\<rparr>) (zones w) g1 = Inr (a2, zs, g2)"
      and w': "w' = put_agent (w\<lparr>zones := zs\<rparr>) i a2" by blast
    show ?thesis unfolding w' using ok0 _ none c by (rule step_ok_choose) (simp add: assms(2))
  next
    case False
    then have "w' = put_agent w i ?a1"
      using assms(3)
      by (auto simp: move_shopping_def Let_def split: if_splits prod.splits sum.splits)
    then show ?thesis using ok1 by (simp add: step_ok_same)
  qed
qed

lemma move_paying_ok:
  assumes "agent_ok (agents w i)" "state (agents w i) = PAYING"
    and "move_paying w i dt g = Inr (w', g')"
  shows "step_ok w i w'"
proof (cases "payment_time (agents w i) + dt \<ge> service_time (agents w i)")
  case False
  then have "w' = put_agent w i ((agents w i)\<lparr>payment_time := payment_time (agents w i) + dt\<rparr>)"
    using assms(3) by (simp add: move_paying_def Let_def)
  moreover have "agent_ok ((agents w i)\<lparr>payment_time := payment_time (agents w i) + dt\<rparr>)"
    using assms(1,2) False by (simp add: agent_ok_def)
  ultimately show ?thesis by (simp add: step_ok_same)
next
  case True
  let ?a2 = "(agents w i)\<lparr>payment_time := 0, state := LEAVING\<rparr>"
  let ?zs1 = "case current_cash_zone (agents w i) of None \<Rightarrow> zones w
      | Some c \<Rightarrow> (zones w)(c := (zones w c)\<lparr>queue_length := queue_length (zones w c) - 1\<rparr>)"
  let ?a3 = "?a2\<lparr>current_cash_zone := None\<rparr>"
  have a3: "(case current_cash_zone ?a2 of None \<Rightarrow> ?a2 | Some c \<Rightarrow> ?a2\<lparr>current_cash_zone := None\<rparr>) = ?a3"
    by (cases "current_cash_zone (agents w i)") simp_all
  obtain a4 zs2 where c: "choose_next_target ?a3 ?zs1 g = Inr (a4, zs2, g')"
    and w': "w' = put_agent (w\<lparr>zones := zs2\<rparr>) i a4"
    using assms(3) True a3
    by (auto simp: move_paying_def Let_def split: sum.splits)
  have ok3: "agent_ok ?a3" using assms(1) by (simp add: agent_ok_def)
  have st: "state ?a3 = LEAVING" by simp
  from choose_next_target_leaving [OF st c]
  obtain p where zs2: "zs2 = ?zs1" and a4: "a4 = ?a3\<lparr>destination := Some p\<rparr>" by blast
  have "agent_ok a4" using ok3 a4 by (simp add: agent_ok_def)
  then show ?thesis unfolding w' using zs2 a4
    by (cases "current_cash_zone (agents w i)")
       (auto simp: step_ok_def zone_delta_def put_agent_def)
qed

lemma step_ok_kin:
  assumes "agent_ok (agents w i)"
  shows "step_ok w i (put_agent w i ((update_heading (agents w i) t v)\<lparr>position := p\<rparr>))"
proof -
  obtain h dh where "update_heading (agents w i) t v = (agents w i)\<lparr>heading := h, desired_heading := dh\<rparr>"
    using update_heading_frame by blast
  then show ?thesis using assms by (simp add: step_ok_same agent_ok_def)
qed

lemma step_ok_state:
  assumes "agent_ok (a\<lparr>state := s\<rparr>)" "current_cash_zone a = current_cash_zone (agents w i)"
  shows "step_ok w i (put_agent w i (a\<lparr>state := s\<rparr>))"
  using assms by (simp add: step_ok_same)

lemma move_in_queue_shape:
  assumes "move_in_queue w i others dt g = Inr (w', g')"
  shows "w' = w \<or> w' = put_agent w i ((agents w i)\<lparr>state := PAYING\<rparr>) \<or>
         (\<exists>t v p. w' = put_agent w i ((update_heading (agents w i) t v)\<lparr>position := p\<rparr>))"
  using assms
  by (simp add: move_in_queue_def Let_def del: split_paired_Ex
        split: option.splits sum.splits if_splits) blast

lemma move_in_queue_ok:
  assumes "agent_ok (agents w i)" "state (agents w i) = IN_QUEUE"
    and "move_in_queue w i others dt g = Inr (w', g')"
  shows "step_ok w i w'"
proof -
  have pay: "step_ok w i (put_agent w i ((agents w i)\<lparr>state := PAYING\<rparr>))"
    using assms(1,2) by (intro step_ok_state) (simp_all add: agent_ok_def)
  note kin = step_ok_kin [OF assms(1)]
  note same = step_ok_refl [OF assms(1)]
  from move_in_queue_shape [OF assms(3)] show ?thesis
    using pay kin same by auto
qed

lemma arrive_ok:
  assumes "agent_ok (agents w i)" "state (agents w i) = WALKING \<or> state (agents w i) = LEAVING"
    and "arrive w i d g = Inr (w', g')"
  shows "step_ok w i w'"
proof -
  let ?a1 = "(agents w i)\<lparr>position := d\<rparr>"
  have ok1: "agent_ok ?a1" using assms(1) by (simp add: agent_ok_def)
  have fin: "step_ok w i (put_agent w i (?a1\<lparr>state := FINISHED\<rparr>))"
    using assms(1,2) by (intro step_ok_state) (auto simp: agent_ok_def)
  have stay: "step_ok w i (put_agent w i ?a1)" using ok1 by (simp add: step_ok_same)
  show ?thesis
  proof (cases "state (agents w i) = WALKING")
    case True
    then have none: "current_cash_zone (agents w i) = None" using assms(1) by (simp add: agent_ok_def)
    have shop: "step_ok w i (put_agent w i (?a1\<lparr>state := SHOPPING\<rparr>))"
      using assms(1) True by (intro step_ok_state) (auto simp: agent_ok_def)
    have sel: "step_ok w i (put_agent (w\<lparr>zones := zs\<rparr>) i a2)"
      if "choose_next_target ?a1 (zones w) g = Inr (a2, zs, g2)" for a2 zs g2
      using ok1 _ none that by (rule step_ok_choose) (simp add: True)
    have "w' = put_agent w i (?a1\<lparr>state := FINISHED\<rparr>) \<or> w' = put_agent w i (?a1\<lparr>state := SHOPPING\<rparr>) \<or>
          (\<exists>a2 zs g2. choose_next_target ?a1 (zones w) g = Inr (a2, zs, g2) \<and>
               w' = put_agent (w\<lparr>zones := zs\<rparr>) i a2)"
      using assms(3) True
      by (simp add: arrive_def Let_def del: split_paired_Ex split: sum.splits if_splits prod.splits)
    then show ?thesis using fin shop sel by auto
  next
    case False
    then have "state (agents w i) = LEAVING" using assms(2) by simp
    then have "w' = put_agent w i (?a1\<lparr>state := FINISHED\<rparr>) \<or> w' = put_agent w i ?a1"
      using assms(3) by (auto simp: arrive_def Let_def split: if_splits)
    then show ?thesis using fin stay by auto
  qed
qed

lemma advance_ok:
  assumes "agent_ok (agents w i)" and "advance w i others d dt g = Inr (w', g')"
  shows "step_ok w i w'"
proof -
  have "\<exists>t v p. w' = put_agent w i ((update_heading (agents w i) t v)\<lparr>position := p\<rparr>)"
    using assms(2)
    by (simp add: advance_def Let_def del: split_paired_Ex split: sum.splits) blast
  then show ?thesis using step_ok_kin [OF assms(1)] by auto
qed

lemma move_walking_ok:
  assumes "agent_ok (agents w i)" "state (agents w i) = WALKING \<or> state (agents w i) = LEAVING"
    and "move_walking w i others dt g = Inr (w', g')"
  shows "step_ok w i w'"
proof -
  have "w' = w \<or> (\<exists>d. arrive w i d g = Inr (w', g')) \<or> (\<exists>d. advance w i others d dt g = Inr (w', g'))"
    using assms(3)
    by (simp add: move_walking_def del: split_paired_Ex split: option.splits if_splits) blast+
  then show ?thesis
    using step_ok_refl [OF assms(1)] arrive_ok [OF assms(1,2)] advance_ok [OF assms(1)] by blast
qed

lemma move_towards_target_ok:
  assumes "agent_ok (agents w i)" and "move_towards_target w i others dt g = Inr (w', g')"
  shows "step_ok w i w'"
proof (cases "state (agents w i)")
  case WALKING
  then show ?thesis using assms move_walking_ok [of w i others dt g w' g']
    by (simp add: move_towards_target_def)
next
  case SHOPPING
  then show ?thesis using assms move_shopping_ok [of w i dt g w' g']
    by (simp add: move_towards_target_def)
next
  case IN_QUEUE
  then show ?thesis using assms move_in_queue_ok [of w i others dt g w' g']
    by (simp add: move_towards_target_def)
next
  case PAYING
  then show ?thesis using assms move_paying_ok [of w i dt g w' g']
    by (simp add: move_towards_target_def)
next
  case LEAVING
  then show ?thesis using assms move_walking_ok [of w i others dt g w' g']
    by (simp add: move_towards_target_def)
next
  case FINISHED
  then show ?thesis using assms step_ok_refl [of w i]
    by (simp add: move_towards_target_def)
qed

subsection \<open>Every reachable world is well-formed\<close>

lemma finite_holders: "finite (holders w z)"
  by (simp add: holders_def)

lemma step_ok_world_ok:
  assumes "world_ok w" "i < id_counter w" "step_ok w i w'"
  shows "world_ok w'"
proof -
  have idc: "id_counter w' = id_counter w"
    and oth: "\<And>j. j \<noteq> i \<Longrightarrow> agents w' j = agents w j"
    and oki: "agent_ok (agents w' i)" and zd: "zone_delta w i w'"
    using assms(3) by (auto simp: step_ok_def)
  have q: "\<And>z. int (card (holders w z)) \<le> queue_length (zones w z)"
    "\<And>z. queue_length (zones w z) \<le> max_queue_length (zones w z)"
    using assms(1) by (auto simp: world_ok_def queues_ok_def)
  have ags: "\<forall>j. j < id_counter w' \<longrightarrow> agent_ok (agents w' j)"
  proof (intro allI impI)
    fix j assume "j < id_counter w'"
    then show "agent_ok (agents w' j)"
      using assms(1) idc oth [of j] oki by (cases "j = i") (auto simp: world_ok_def)
  qed
  have "queues_ok w'"
    using zd unfolding zone_delta_def
  proof (elim disjE exE conjE)
    assume same: "zones w' = zones w" "current_cash_zone (agents w' i) = current_cash_zone (agents w i)"
    have "holders w' z = holders w z" for z
      unfolding holders_def idc using same(2) oth by (metis (no_types, opaque_lifting))
    then show ?thesis using q same(1) by (simp add: queues_ok_def)
  next
    fix c
    assume j: "current_cash_zone (agents w i) = None" "current_cash_zone (agents w' i) = Some c"
      "can_join_queue (zones w c)"
      "zones w' = (zones w)(c := (zones w c)\<lparr>queue_length := queue_length (zones w c) + 1\<rparr>)"
    have hc: "holders w' c = insert i (holders w c)"
      unfolding holders_def idc using j(1,2) oth assms(2) by (auto; metis)
    have ni: "i \<notin> holders w c" using j(1) by (simp add: holders_def)
    have hz: "holders w' z = holders w z" if "z \<noteq> c" for z
      unfolding holders_def idc using j(1,2) oth that by (auto; metis option.inject option.distinct(1))
    show ?thesis unfolding queues_ok_def
    proof (intro allI)
      fix z
      show "int (card (holders w' z)) \<le> queue_length (zones w' z) \<and>
            queue_length (zones w' z) \<le> max_queue_length (zones w' z)"
      proof (cases "z = c")
        case True
        have "card (holders w' c) = Suc (card (holders w c))"
          using hc ni finite_holders by simp
        then show ?thesis using True q(1) [of c] j(3,4) by (simp add: can_join_queue_def)
      next
        case False
        then show ?thesis using hz q j(4) by simp
      qed
    qed
  next
    fix c
    assume r: "current_cash_zone (agents w i) = Some c" "current_cash_zone (agents w' i) = None"
      "zones w' = (zones w)(c := (zones w c)\<lparr>queue_length := queue_length (zones w c) - 1\<rparr>)"
    have hc: "holders w' c = holders w c - {i}"
      unfolding holders_def idc using r(1,2) oth by (auto; metis)
    have ii: "i \<in> holders w c" using r(1) assms(2) by (simp add: holders_def)
    have hz: "holders w' z = holders w z" if "z \<noteq> c" for z
      unfolding holders_def idc using r(1,2) oth that by (auto; metis option.inject option.distinct(1))
    show ?thesis unfolding queues_ok_def
    proof (intro allI)
      fix z
      show "int (card (holders w' z)) \<le> queue_length (zones w' z) \<and>
            queue_length (zones w' z) \<le> max_queue_length (zones w' z)"
      proof (cases "z = c")
        case True
        have "card (holders w c) > 0" using ii finite_holders [of w c] by (auto simp: card_gt_0_iff)
        moreover have "card (holders w' c) = card (holders w c) - 1"
          using hc ii finite_holders by simp
        ultimately show ?thesis using True q(1) [of c] q(2) [of c] r(3) by simp
      next
        case False
        then show ?thesis using hz q r(3) by simp
      qed
    qed
  qed
  then show ?thesis using ags by (simp add: world_ok_def)
qed

lemma world_ok_new_agent:
  assumes "world_ok w" "agent_ok a" "current_cash_zone a = None"
  shows "world_ok (w\<lparr>agents := (agents w)(id_counter w := a), id_counter := Suc (id_counter w)\<rparr>)"
proof -
  let ?w = "w\<lparr>agents := (agents w)(id_counter w := a), id_counter := Suc (id_counter w)\<rparr>"
  have "holders ?w z = holders w z" for z
    using assms(3) by (auto simp: holders_def less_Suc_eq)
  then have "queues_ok ?w" using assms(1) by (simp add: world_ok_def queues_ok_def)
  moreover have "\<forall>i. i < id_counter ?w \<longrightarrow> agent_ok (agents ?w i)"
    using assms(1,2) by (auto simp: world_ok_def less_Suc_eq)
  ultimately show ?thesis by (simp add: world_ok_def)
qed

lemma random_uniform_frame:
  "random_uniform a b g = (a + (b - a) * floats g 0, g\<lparr>floats := (\<lambda>n. floats g (Suc n))\<rparr>)"
  by (simp add: random_uniform_def random_random_def)

lemma fresh_agent_fields:
  assumes "fresh_agent n sp sz cz ep beh bud scl spd g = (a0, g6)"
  shows "all_zones a0 = sz" "unvisited_zones a0 = sz" "visited_zones a0 = []"
    "service_time a0 = 30 + 90 * floats g 0" "payment_time a0 = 0" "shopping_time a0 = 0"
    "state a0 = WALKING" "current_cash_zone a0 = None" "behavior a0 = beh" "budget a0 = bud"
    "position a0 = sp" "cash_zones a0 = cz" "scale a0 = scl" "first_move a0"
    "speed a0 = (if beh = FAMILY then spd * 0.7 else spd)"
  using assms by (auto simp: fresh_agent_def random_uniform_frame)

lemma fresh_agent_ok:
  assumes "valid_rng g" "fresh_agent n sp sz cz ep beh bud scl spd g = (a0, g6)"
  shows "agent_ok a0"
proof -
  have "0 \<le> floats g 0" using assms(1) by (simp add: valid_rng_def)
  then show ?thesis using fresh_agent_fields [OF assms(2)] by (simp add: agent_ok_def)
qed

lemma Agent_init_ok:
  assumes "world_ok w" "valid_rng g"
    and "Agent_init w sp sz cz ep beh bud scl spd g = Inr (w', i, g')"
  shows "world_ok w'"
proof -
  obtain a0 g6 where f: "fresh_agent (id_counter w) sp sz cz ep beh bud scl spd g = (a0, g6)"
    by (cases "fresh_agent (id_counter w) sp sz cz ep beh bud scl spd g")
  obtain a1 zs where c: "choose_next_target a0 (zones w) g6 = Inr (a1, zs, g')"
    and w': "w' = \<lparr>zones = zs, agents = (agents w)(id_counter w := a1), id_counter = Suc (id_counter w)\<rparr>"
    using assms(3) f by (auto simp: Agent_init_def split: sum.splits)
  have ok0: "agent_ok a0" using assms(2) f by (rule fresh_agent_ok)
  have none: "current_cash_zone a0 = None" and st: "state a0 = WALKING"
    using fresh_agent_fields [OF f] by simp_all
  let ?w0 = "w\<lparr>agents := (agents w)(id_counter w := a0), id_counter := Suc (id_counter w)\<rparr>"
  have w0: "world_ok ?w0" using assms(1) ok0 none by (rule world_ok_new_agent)
  have c0: "choose_next_target a0 (zones ?w0) g6 = Inr (a1, zs, g')" using c by simp
  have n0: "current_cash_zone (agents ?w0 (id_counter w)) = None" using none by simp
  have "step_ok ?w0 (id_counter w) (put_agent (?w0\<lparr>zones := zs\<rparr>) (id_counter w) a1)"
    using ok0 _ n0 c0 by (rule step_ok_choose) (simp add: st)
  moreover have "put_agent (?w0\<lparr>zones := zs\<rparr>) (id_counter w) a1 = w'"
    by (simp add: put_agent_def w')
  ultimately have s: "step_ok ?w0 (id_counter w) w'" by simp
  have lt: "id_counter w < id_counter ?w0" by simp
  show ?thesis using w0 lt s by (rule step_ok_world_ok)
qed

lemma follow_step_frame: "\<exists>p. follow_step spd prev cur = cur\<lparr>position := p\<rparr>"
proof -
  have "follow_step spd prev cur = cur\<lparr>position := position (follow_step spd prev cur)\<rparr>"
    by (simp add: follow_step_def Let_def)
  then show ?thesis by blast
qed

lemma follow_loop_frame: "\<exists>p. follow_loop spd ms ags j = (ags j)\<lparr>position := p\<rparr>"
proof (induction spd ms ags rule: follow_loop.induct)
  case (1 spd ags)
  have "follow_loop spd [] ags j = (ags j)\<lparr>position := position (ags j)\<rparr>" by simp
  then show ?case by blast
next
  case (2 spd m ags)
  have "follow_loop spd [m] ags j = (ags j)\<lparr>position := position (ags j)\<rparr>" by simp
  then show ?case by blast
next
  case (3 spd p c rest ags)
  obtain q where q: "follow_step spd (ags p) (ags c) = (ags c)\<lparr>position := q\<rparr>"
    using follow_step_frame by blast
  from 3 obtain r where
    r: "follow_loop spd (c # rest) (ags(c := follow_step spd (ags p) (ags c))) j
          = ((ags(c := follow_step spd (ags p) (ags c))) j)\<lparr>position := r\<rparr>" by blast
  have "follow_loop spd (p # c # rest) ags j = (ags j)\<lparr>position := r\<rparr>"
    using q r by (cases "j = c") simp_all
  then show ?case by blast
qed

lemma world_ok_positions:
  assumes "world_ok w" "\<And>j. \<exists>p. ags j = (agents w j)\<lparr>position := p\<rparr>"
  shows "world_ok (w\<lparr>agents := ags\<rparr>)"
proof -
  have ccz: "current_cash_zone (ags j) = current_cash_zone (agents w j)" for j
    using assms(2) [of j] by auto
  have ok: "agent_ok (ags j) = agent_ok (agents w j)" for j
    using assms(2) [of j] by (auto simp: agent_ok_def)
  have "holders (w\<lparr>agents := ags\<rparr>) z = holders w z" for z
    by (simp add: holders_def ccz)
  then show ?thesis using assms(1) ok by (simp add: world_ok_def queues_ok_def)
qed

lemma AgentGroup_update_ok:
  assumes "world_ok w" "list_all (\<lambda>m. m < id_counter w) (members grp)"
    and "AgentGroup_update grp w g = Inr (w', g')"
  shows "world_ok w'"
proof (cases "members grp")
  case Nil
  then show ?thesis using assms by (simp add: AgentGroup_update_def)
next
  case (Cons leader followers)
  then obtain w1 where m: "move_towards_target w leader (members grp) 0.033 g = Inr (w1, g')"
    and w': "w' = w1\<lparr>agents := follow_loop (group_speed grp) (members grp) (agents w1)\<rparr>"
    using assms(3) by (auto simp: AgentGroup_update_def split: sum.splits)
  have l: "leader < id_counter w" using assms(2) Cons by simp
  then have "agent_ok (agents w leader)" using assms(1) by (simp add: world_ok_def)
  then have "step_ok w leader w1" using m by (rule move_towards_target_ok)
  with assms(1) l have "world_ok w1" by (rule step_ok_world_ok)
  then show ?thesis unfolding w' by (rule world_ok_positions) (rule follow_loop_frame)
qed

lemma initial_world_ok: "initial w \<Longrightarrow> world_ok w"
  by (simp add: initial_def world_ok_def queues_ok_def holders_def)

lemma reachable_world_ok: "reachable w \<Longrightarrow> world_ok w"
proof (induction rule: reachable.induct)
  case (start w)
  then show ?case by (rule initial_world_ok)
next
  case (construct w g start_pos store_zones cash_zs exit_pts beh bud scl spd w' i g')
  from construct.IH construct.hyps(2,3) show ?case by (rule Agent_init_ok)
next
  case (move w g i others delta_time w' g')
  have "agent_ok (agents w i)" using move.IH move.hyps(3) by (simp add: world_ok_def)
  then have "step_ok w i w'" using move.hyps(4) by (rule move_towards_target_ok)
  with move.IH move.hyps(3) show ?case by (rule step_ok_world_ok)
next
  case (update w g grp w' g')
  from update.IH update.hyps(3,4) show ?case by (rule AgentGroup_update_ok)
qed

subsection \<open>C5: the queue counter stays within its bounds\<close>

text \<open>
  C5: in every reachable world and for every zone, the counter \<open>queue_length\<close> lies between
  0 and \<open>max_queue_length\<close>. \<open>join_queue\<close> adds one only below the capacity and returns -1
  otherwise; and the counter is never below the number of agents that hold the zone,
  which are the only ones whose payment can still take one off.
\<close>

theorem queue_length_within_capacity:
  assumes "reachable w"
  shows "0 \<le> queue_length (zones w z) \<and> queue_length (zones w z) \<le> max_queue_length (zones w z) \<and>
         int (card {i. i < id_counter w \<and> current_cash_zone (agents w i) = Some z})
           \<le> queue_length (zones w z) \<and>
         (\<forall>s. queue_length (fst (join_queue s)) =
                (if queue_length s < max_queue_length s then queue_length s + 1 else queue_length s) \<and>
              (if queue_length s < max_queue_length s then snd (join_queue s) = queue_length s + 1
               else snd (join_queue s) = - 1))"
proof -
  have "world_ok w" using assms by (rule reachable_world_ok)
  then have "int (card (holders w z)) \<le> queue_length (zones w z)"
    and "queue_length (zones w z) \<le> max_queue_length (zones w z)"
    by (simp_all add: world_ok_def queues_ok_def)
  then show ?thesis by (simp add: holders_def join_queue_def can_join_queue_def)
qed

theorem queue_length_within_capacity_witness:
  "(case queue_up checkout_world of
      Inl e \<Rightarrow> False
    | Inr (w1, a, g1) \<Rightarrow>
        reachable w1 \<and> queue_length (zones w1 0) = 1 \<and> max_queue_length (zones w1 0) = 5 \<and>
        0 \<le> queue_length (zones w1 0) \<and> queue_length (zones w1 0) \<le> max_queue_length (zones w1 0))"
proof -
  have run: "(case queue_up checkout_world of
      Inl e \<Rightarrow> False
    | Inr (w1, a, g1) \<Rightarrow> queue_length (zones w1 0) = 1 \<and> max_queue_length (zones w1 0) = 5)"
    by (simp add: run_defs)
  then obtain w1 a g1 where q: "queue_up checkout_world = Inr (w1, a, g1)"
    and v: "queue_length (zones w1 0) = 1" "max_queue_length (zones w1 0) = 5"
    by (auto split: sum.splits)
  have "reachable checkout_world" by (rule reachable.start) (rule initial_checkout_world)
  then have r: "reachable w1" using q unfolding queue_up_def
    by (rule reachable.construct [OF _ valid_fixed_rng])
  show ?thesis using q r v queue_length_within_capacity [OF r, of 0] by simp
qed

subsection \<open>C7: unvisited and visited zones\<close>









subsection \<open>C3: a movement step with \<open>delta_time = 0\<close>\<close>

lemma choose_keeps_clock:
  assumes "choose_next_target a zs g = Inr (a', zs', g')"
  shows "position a' = position a \<and> shopping_time a' = shopping_time a \<and>
         payment_time a' = payment_time a"
  using assms by (cases rule: choose_next_target_elim) simp_all

lemma update_heading_keeps:
  "position (update_heading a t v) = position a"
  "shopping_time (update_heading a t v) = shopping_time a"
  "payment_time (update_heading a t v) = payment_time a"
  "state (update_heading a t v) = state a"
  by (simp_all add: update_heading_def Let_def)

lemma distance_to_zero:
  assumes "distance_to a d \<le> 0"
  shows "d = position a"
proof -
  let ?dx = "fst d - fst (position a)" and ?dy = "snd d - snd (position a)"
  have "sqrt (?dx * ?dx + ?dy * ?dy) \<le> 0" using assms by (simp add: distance_to_def Let_def)
  then have "?dx * ?dx + ?dy * ?dy \<le> 0" by simp
  moreover have "0 \<le> ?dx * ?dx" "0 \<le> ?dy * ?dy" by simp_all
  ultimately have "?dx * ?dx = 0" "?dy * ?dy = 0" by linarith+
  then have "?dx = 0" "?dy = 0" by simp_all
  then show ?thesis by (simp add: prod_eq_iff)
qed

lemma move_walking_zero:
  assumes "move_walking w i others 0 g = Inr (w', g')"
  shows "position (agents w' i) = position (agents w i) \<and>
         shopping_time (agents w' i) = shopping_time (agents w i) \<and>
         payment_time (agents w' i) = payment_time (agents w i) \<and>
         (state (agents w' i) = state (agents w i) \<or>
          (destination (agents w i) = Some (position (agents w i)) \<and>
           point_truthy (position (agents w i))))"
proof (cases "destination (agents w i)")
  case None
  then show ?thesis using assms by (simp add: move_walking_def)
next
  case (Some d)
  show ?thesis
  proof (cases "point_truthy d")
    case False
    then show ?thesis using assms Some by (simp add: move_walking_def)
  next
    case True
    show ?thesis
    proof (cases "distance_to (agents w i) d \<le> 0")
      case le: True
      have dp: "d = position (agents w i)" using le by (rule distance_to_zero)
      have "arrive w i d g = Inr (w', g')" using assms Some True le by (simp add: move_walking_def)
      then have "position (agents w' i) = position (agents w i) \<and>
          shopping_time (agents w' i) = shopping_time (agents w i) \<and>
          payment_time (agents w' i) = payment_time (agents w i)"
        using dp
        by (auto simp: arrive_def Let_def put_agent_def split: if_splits sum.splits
            dest!: choose_keeps_clock)
      then show ?thesis using Some True dp by simp
    next
      case gt: False
      then have "advance w i others d 0 g = Inr (w', g')"
        using assms Some True by (simp add: move_walking_def)
      then show ?thesis
        by (auto simp: advance_def Let_def put_agent_def update_heading_keeps point_add_def
            split: sum.splits)
    qed
  qed
qed

text \<open>
  C3, as stated, fails: the head of a queue is determined by every call, whatever the
  time step. A shopper constructed with nothing to visit waits in the queue of zone 0; one
  movement step with \<open>delta_time = 0\<close> makes it \<open>PAYING\<close>.
\<close>

theorem zero_delta_time_changes_state:
  "(case queue_up checkout_world of
      Inl e \<Rightarrow> False
    | Inr (w1, a, g1) \<Rightarrow>
        (case move_towards_target w1 a [a] 0 fixed_rng of
           Inl e \<Rightarrow> False
         | Inr (w2, g2) \<Rightarrow> state (agents w1 a) = IN_QUEUE \<and> state (agents w2 a) = PAYING))"
  by (simp add: run_defs)

text \<open>
  C3, amended: for every agent of every reachable world, a movement step with
  \<open>delta_time = 0\<close> that returns leaves the agent's position, shopping time and payment time
  unchanged. It leaves the state unchanged too, with two exceptions that do not depend on
  the time step: an agent in \<open>IN_QUEUE\<close> that is first in the sorted queue of its zone becomes
  \<open>PAYING\<close>, and a \<open>WALKING\<close> or \<open>LEAVING\<close> agent that stands exactly on its (non-null)
  destination goes through its arrival transition.
\<close>

theorem move_zero_delta_time:
  assumes "reachable w" and "i < id_counter w" and "valid_rng g"
    and "move_towards_target w i others 0 g = Inr (w', g')"
  shows "position (agents w' i) = position (agents w i) \<and>
         shopping_time (agents w' i) = shopping_time (agents w i) \<and>
         payment_time (agents w' i) = payment_time (agents w i) \<and>
         (state (agents w' i) = state (agents w i) \<or>
          (state (agents w i) = IN_QUEUE \<and> state (agents w' i) = PAYING \<and>
           (\<exists>c queue. current_cash_zone (agents w i) = Some c \<and>
                sorted_queue w c others = Inr queue \<and> queue \<noteq> [] \<and> hd queue = i)) \<or>
          ((state (agents w i) = WALKING \<or> state (agents w i) = LEAVING) \<and>
           destination (agents w i) = Some (position (agents w i)) \<and>
           point_truthy (position (agents w i))))"
proof -
  let ?a = "agents w i"
  have ok: "agent_ok ?a" using reachable_world_ok [OF assms(1)] assms(2) by (simp add: world_ok_def)
  have r0: "0 \<le> floats g 0" using assms(3) by (simp add: valid_rng_def)
  show ?thesis
  proof (cases "state ?a")
    case FINISHED
    then show ?thesis using assms(4) by (simp add: move_towards_target_def)
  next
    case SHOPPING
    then have "move_shopping w i 0 g = Inr (w', g')" using assms(4) by (simp add: move_towards_target_def)
    then have "agents w' i = ?a"
      using r0 by (auto simp: move_shopping_def Let_def random_random_def put_agent_def
          split: if_splits)
    then show ?thesis by simp
  next
    case PAYING
    then have "move_paying w i 0 g = Inr (w', g')" using assms(4) by (simp add: move_towards_target_def)
    moreover have "payment_time ?a < service_time ?a" using ok PAYING by (simp add: agent_ok_def)
    ultimately have "agents w' i = ?a"
      by (auto simp: move_paying_def Let_def put_agent_def)
    then show ?thesis by simp
  next
    case IN_QUEUE
    then have m: "move_in_queue w i others 0 g = Inr (w', g')"
      using assms(4) by (simp add: move_towards_target_def)
    show ?thesis
    proof (cases "\<exists>c queue. current_cash_zone ?a = Some c \<and>
                sorted_queue w c others = Inr queue \<and> queue \<noteq> [] \<and> hd queue = i")
      case True
      then have "agents w' i = ?a\<lparr>state := PAYING\<rparr>"
        using m by (auto simp: move_in_queue_def put_agent_def)
      then show ?thesis using True IN_QUEUE by simp
    next
      case False
      then have "w' = w \<or> (\<exists>t v. w' = put_agent w i ((update_heading ?a t v)
               \<lparr>position := point_add (position (update_heading ?a t v)) (0, 0)\<rparr>))"
        using m
        by (simp add: move_in_queue_def Let_def del: split_paired_Ex
            split: option.splits sum.splits if_splits) blast+
      then show ?thesis by (auto simp: update_heading_keeps point_add_def put_agent_def)
    qed
  next
    case WALKING
    then have "move_walking w i others 0 g = Inr (w', g')"
      using assms(4) by (simp add: move_towards_target_def)
    from move_walking_zero [OF this] show ?thesis using WALKING by auto
  next
    case LEAVING
    then have "move_walking w i others 0 g = Inr (w', g')"
      using assms(4) by (simp add: move_towards_target_def)
    from move_walking_zero [OF this] show ?thesis using LEAVING by auto
  qed
qed

theorem move_zero_delta_time_witness:
  "(case enter_shop shop_world of
      Inl e \<Rightarrow> False
    | Inr (w1, x, g1) \<Rightarrow>
        (case move_towards_target w1 x [x] 1 fixed_rng of
           Inl e \<Rightarrow> False
         | Inr (w2, g2) \<Rightarrow>
             (case move_towards_target w2 x [x] 0 fixed_rng of
                Inl e \<Rightarrow> False
              | Inr (w3, g3) \<Rightarrow>
                  reachable w2 \<and> x < id_counter w2 \<and> valid_rng fixed_rng \<and>
                  state (agents w2 x) = SHOPPING \<and> state (agents w3 x) = SHOPPING \<and>
                  position (agents w3 x) = position (agents w2 x) \<and>
                  shopping_time (agents w3 x) = shopping_time (agents w2 x) \<and>
                  payment_time (agents w3 x) = payment_time (agents w2 x))))"
proof -
  have run: "(case enter_shop shop_world of
      Inl e \<Rightarrow> False
    | Inr (w1, x, g1) \<Rightarrow>
        (case move_towards_target w1 x [x] 1 fixed_rng of
           Inl e \<Rightarrow> False
         | Inr (w2, g2) \<Rightarrow>
             (case move_towards_target w2 x [x] 0 fixed_rng of
                Inl e \<Rightarrow> False
              | Inr (w3, g3) \<Rightarrow>
                  x < id_counter w1 \<and> x < id_counter w2 \<and> state (agents w2 x) = SHOPPING)))"
    by (simp add: run_defs)
  then obtain w1 x g1 w2 g2 w3 g3 where
    s1: "enter_shop shop_world = Inr (w1, x, g1)" and
    s2: "move_towards_target w1 x [x] 1 fixed_rng = Inr (w2, g2)" and
    s3: "move_towards_target w2 x [x] 0 fixed_rng = Inr (w3, g3)" and
    v: "x < id_counter w1" "x < id_counter w2" "state (agents w2 x) = SHOPPING"
    by (auto split: sum.splits)
  have "reachable shop_world" by (rule reachable.start) (rule initial_shop_world)
  then have "reachable w1" using s1 unfolding enter_shop_def
    by (rule reachable.construct [OF _ valid_fixed_rng])
  then have r: "reachable w2" using v(1) s2 by (rule reachable.move [OF _ valid_fixed_rng])
  show ?thesis
    using s1 s2 s3 r v valid_fixed_rng move_zero_delta_time [OF r v(2) valid_fixed_rng s3]
    by simp
qed

subsection \<open>C2: the head of a queue\<close>

lemma hd_sort_key_least:
  assumes "y \<in> set xs"
  shows "f (hd (sort_key f xs)) \<le> f y"
proof -
  have ne: "sort_key f xs \<noteq> []" using assms by (metis empty_iff set_empty set_sort)
  then obtain a rest where ar: "sort_key f xs = a # rest" by (cases "sort_key f xs") auto
  have "sorted (map f (a # rest))" using sorted_sort_key [of f xs] ar by simp
  moreover have "y \<in> set (a # rest)" using assms ar by (metis set_sort)
  ultimately show ?thesis using ar by auto
qed

lemma hd_sort_key_mem: "xs \<noteq> [] \<Longrightarrow> hd (sort_key f xs) \<in> set xs"
  by (metis hd_in_set set_empty set_sort)

text \<open>
  C2, as stated, fails: each agent's step looks for the head among the agents that are in
  \<open>IN_QUEUE\<close> at that moment, and an agent that has become \<open>PAYING\<close> is no longer among
  them. Two shoppers queue at zone 0 with slots 1 and 2; in one tick over both, the first
  becomes \<open>PAYING\<close>, which makes the second the head when its turn comes, and it becomes
  \<open>PAYING\<close> in the same tick.
\<close>

theorem one_tick_serves_two:
  "(case queue_up checkout_world of
      Inl e \<Rightarrow> False
    | Inr (w1, a, g1) \<Rightarrow>
        (case queue_up w1 of
           Inl e \<Rightarrow> False
         | Inr (w2, b, g2) \<Rightarrow>
             (case update_loop [a, b] [a, b] 0.033 w2 fixed_rng of
                Inl e \<Rightarrow> False
              | Inr (w3, g3) \<Rightarrow>
                  a \<noteq> b \<and>
                  state (agents w2 a) = IN_QUEUE \<and> state (agents w2 b) = IN_QUEUE \<and>
                  current_cash_zone (agents w2 a) = Some 0 \<and>
                  current_cash_zone (agents w2 b) = Some 0 \<and>
                  queue_position (agents w2 a) = Some 1 \<and> queue_position (agents w2 b) = Some 2 \<and>
                  state (agents w3 a) = PAYING \<and> state (agents w3 b) = PAYING)))"
  by (simp add: run_defs)

text \<open>
  C2, amended: one movement step of an agent in \<open>IN_QUEUE\<close> changes no other agent and no
  zone. The agent becomes \<open>PAYING\<close> in that step exactly when it holds a zone and is the
  first element of the list of the agents of \<open>others\<close> that are in \<open>IN_QUEUE\<close> at that zone
  at that moment, sorted by claimed slot; it is then in \<open>others\<close> and no such agent holds
  a smaller slot. So at most one agent becomes \<open>PAYING\<close> per step, always a holder of the
  least slot among the agents still waiting; nothing bounds the number per tick.
\<close>

theorem head_of_queue_becomes_paying:
  assumes "state (agents w i) = IN_QUEUE"
    and "move_towards_target w i others dt g = Inr (w', g')"
  shows "(\<forall>j. j \<noteq> i \<longrightarrow> agents w' j = agents w j) \<and> zones w' = zones w \<and>
         (state (agents w' i) = IN_QUEUE \<or> state (agents w' i) = PAYING) \<and>
         (state (agents w' i) = PAYING \<longleftrightarrow>
            (\<exists>c queue. current_cash_zone (agents w i) = Some c \<and>
               sorted_queue w c others = Inr queue \<and> queue \<noteq> [] \<and> hd queue = i)) \<and>
         (state (agents w' i) = PAYING \<longrightarrow>
            i \<in> set others \<and>
            (\<forall>j\<in>set others.
               state (agents w j) = IN_QUEUE \<and>
               current_cash_zone (agents w j) = current_cash_zone (agents w i) \<longrightarrow>
               (\<forall>p q. queue_position (agents w i) = Some p \<longrightarrow>
                      queue_position (agents w j) = Some q \<longrightarrow> p \<le> q)))"
proof -
  let ?a = "agents w i"
  have m: "move_in_queue w i others dt g = Inr (w', g')"
    using assms by (simp add: move_towards_target_def)
  let ?head = "\<exists>c queue. current_cash_zone ?a = Some c \<and>
               sorted_queue w c others = Inr queue \<and> queue \<noteq> [] \<and> hd queue = i"
  have shape: "(?head \<and> w' = put_agent w i (?a\<lparr>state := PAYING\<rparr>)) \<or>
      (\<not> ?head \<and> (w' = w \<or> (\<exists>t v p. w' = put_agent w i ((update_heading ?a t v)\<lparr>position := p\<rparr>))))"
  proof (cases ?head)
    case True
    then have "w' = put_agent w i (?a\<lparr>state := PAYING\<rparr>)"
      using m by (auto simp: move_in_queue_def)
    then show ?thesis using True by blast
  next
    case False
    then have "w' = w \<or> (\<exists>t v p. w' = put_agent w i ((update_heading ?a t v)\<lparr>position := p\<rparr>))"
      using m
      by (simp add: move_in_queue_def Let_def del: split_paired_Ex
          split: option.splits sum.splits if_splits) blast+
    then show ?thesis using False by blast
  qed
  have frame: "(\<forall>j. j \<noteq> i \<longrightarrow> agents w' j = agents w j) \<and> zones w' = zones w"
    using shape by (auto simp: put_agent_def)
  have st: "state (agents w' i) = PAYING \<longleftrightarrow> ?head"
    using shape assms(1) by (auto simp: put_agent_def update_heading_keeps)
  have st2: "state (agents w' i) = IN_QUEUE \<or> state (agents w' i) = PAYING"
    using shape assms(1) by (auto simp: put_agent_def update_heading_keeps)
  have least: "i \<in> set others \<and>
            (\<forall>j\<in>set others.
               state (agents w j) = IN_QUEUE \<and>
               current_cash_zone (agents w j) = current_cash_zone ?a \<longrightarrow>
               (\<forall>p q. queue_position ?a = Some p \<longrightarrow>
                      queue_position (agents w j) = Some q \<longrightarrow> p \<le> q))" if ?head
  proof -
    from that obtain c queue where c: "current_cash_zone ?a = Some c"
      and q: "sorted_queue w c others = Inr queue" and ne: "queue \<noteq> []" and hd: "hd queue = i"
      by blast
    have qs: "queue = sort_key (slot_key w) (waiting_at w c others)"
      using q by (auto simp: sorted_queue_def Let_def split: if_splits)
    then have wne: "waiting_at w c others \<noteq> []" using ne by auto
    have "i \<in> set (waiting_at w c others)" using hd qs hd_sort_key_mem [OF wne] by metis
    then have iin: "i \<in> set others" by (simp add: waiting_at_def)
    have "p \<le> q" if j: "j \<in> set others" "state (agents w j) = IN_QUEUE"
      "current_cash_zone (agents w j) = current_cash_zone ?a"
      "queue_position ?a = Some p" "queue_position (agents w j) = Some q" for j p q
    proof -
      have "j \<in> set (waiting_at w c others)" using j(1,2,3) c by (simp add: waiting_at_def)
      then have "slot_key w (hd (sort_key (slot_key w) (waiting_at w c others))) \<le> slot_key w j"
        by (rule hd_sort_key_least)
      then have "slot_key w i \<le> slot_key w j" using hd qs by simp
      then show ?thesis using j(4,5) by (simp add: slot_key_def)
    qed
    then show ?thesis using iin by blast
  qed
  show ?thesis using frame st st2 least by blast
qed

theorem head_of_queue_becomes_paying_witness:
  "(case queue_up checkout_world of
      Inl e \<Rightarrow> False
    | Inr (w1, a, g1) \<Rightarrow>
        (case queue_up w1 of
           Inl e \<Rightarrow> False
         | Inr (w2, b, g2) \<Rightarrow>
             (case move_towards_target w2 a [a, b] 0.033 fixed_rng of
                Inl e \<Rightarrow> False
              | Inr (w3, g3) \<Rightarrow>
                  state (agents w2 a) = IN_QUEUE \<and> state (agents w3 a) = PAYING \<and>
                  queue_position (agents w2 a) = Some 1 \<and> queue_position (agents w2 b) = Some 2 \<and>
                  a \<in> set [a, b] \<and> agents w3 b = agents w2 b \<and> zones w3 = zones w2)))"
proof -
  have run: "(case queue_up checkout_world of
      Inl e \<Rightarrow> False
    | Inr (w1, a, g1) \<Rightarrow>
        (case queue_up w1 of
           Inl e \<Rightarrow> False
         | Inr (w2, b, g2) \<Rightarrow>
             (case move_towards_target w2 a [a, b] 0.033 fixed_rng of
                Inl e \<Rightarrow> False
              | Inr (w3, g3) \<Rightarrow>
                  a \<noteq> b \<and> state (agents w2 a) = IN_QUEUE \<and> state (agents w3 a) = PAYING \<and>
                  queue_position (agents w2 a) = Some 1 \<and> queue_position (agents w2 b) = Some 2)))"
    by (simp add: run_defs)
  then obtain w1 a g1 w2 b g2 w3 g3 where
    s1: "queue_up checkout_world = Inr (w1, a, g1)" and
    s2: "queue_up w1 = Inr (w2, b, g2)" and
    s3: "move_towards_target w2 a [a, b] 0.033 fixed_rng = Inr (w3, g3)" and
    v: "a \<noteq> b" "state (agents w2 a) = IN_QUEUE" "state (agents w3 a) = PAYING"
       "queue_position (agents w2 a) = Some 1" "queue_position (agents w2 b) = Some 2"
    by (auto split: sum.splits)
  show ?thesis
    using s1 s2 s3 v head_of_queue_becomes_paying [OF v(2) s3] by simp
qed

subsection \<open>C4: the arrival threshold and the step\<close>

lemma sqrt_100: "sqrt 100 = 10"
  by (rule real_sqrt_unique) simp_all

lemma sqrt_2500: "sqrt 2500 = 50"
  by (rule real_sqrt_unique) simp_all

lemma sqrt_1000000: "sqrt 1000000 = 1000"
  by (rule real_sqrt_unique) simp_all

lemma update_heading_east:
  assumes "dest_truthy a" "heading a = (1, 0)" "snd t = snd (position a)" "fst (position a) < fst t"
  shows "update_heading a t (0, 0) = a\<lparr>desired_heading := (1, 0), heading := (1, 0)\<rparr>"
proof -
  let ?dx = "fst t - fst (position a)"
  have pos: "0 < ?dx" using assms(4) by simp
  have len: "sqrt (?dx * ?dx + (snd t - snd (position a)) * (snd t - snd (position a))) = ?dx"
    using pos assms(3) by simp
  have dy: "snd t - snd (position a) = 0" using assms(3) by simp
  show ?thesis
    unfolding update_heading_def Let_def len
    using assms(1,2) pos by (simp add: dy)
qed

lemma get_collision_rect_some:
  assumes "scale a \<noteq> 0"
  shows "\<exists>r. get_collision_rect a = Inr r"
proof -
  have "\<not> isl (get_collision_rect a)"
    unfolding get_collision_rect_def by (simp only: assms if_False Let_def sum.disc not_False_eq_True)
  then show ?thesis by (cases "get_collision_rect a") auto
qed

lemma avoid_loop_step_coincident:
  assumes "scale (ags j) \<noteq> 0" "position (ags j) = position (ags i)"
  shows "avoid_loop ags i r (j # js) v = avoid_loop ags i r js v"
proof -
  obtain rj where rj: "get_collision_rect (ags j) = Inr rj"
    using get_collision_rect_some [OF assms(1)] by blast
  have d: "fst (position (ags i)) - fst (position (ags j)) = 0"
    "snd (position (ags i)) - snd (position (ags j)) = 0"
    using assms(2) by simp_all
  show ?thesis
    unfolding avoid_loop.simps rj Let_def d by simp
qed

lemma avoid_loop_coincident:
  assumes "\<forall>j\<in>set others. scale (ags j) \<noteq> 0 \<and> position (ags j) = position (ags i)"
  shows "avoid_loop ags i r others v = Inr v"
  using assms
proof (induction others)
  case Nil
  then show ?case by simp
next
  case (Cons j js)
  have "avoid_loop ags i r (j # js) v = avoid_loop ags i r js v"
    using Cons.prems by (intro avoid_loop_step_coincident) simp_all
  also have "\<dots> = Inr v" using Cons by simp
  finally show ?case .
qed

lemma avoid_collisions_coincident:
  assumes "scale (ags i) \<noteq> 0"
    and "\<forall>j\<in>set others. scale (ags j) \<noteq> 0 \<and> position (ags j) = position (ags i)"
  shows "avoid_collisions ags i others = Inr (0, 0)"
proof -
  obtain r where "get_collision_rect (ags i) = Inr r"
    using get_collision_rect_some [OF assms(1)] by blast
  then show ?thesis using avoid_loop_coincident [OF assms(2)] by (simp add: avoid_collisions_def)
qed

lemma distance_to_east:
  assumes "snd d = snd (position a)" "fst (position a) \<le> fst d"
  shows "distance_to a d = fst d - fst (position a)"
  using assms by (simp add: distance_to_def Let_def)

text \<open>A step of a walking agent that heads east towards a destination due east, further
  away than \<open>speed * delta_time\<close>, with every agent of \<open>others\<close> at its own position.\<close>

lemma walk_east:
  assumes "state (agents w i) = WALKING \<or> state (agents w i) = LEAVING"
    and "destination (agents w i) = Some d" and "point_truthy d"
    and "heading (agents w i) = (1, 0)" and "snd d = snd (position (agents w i))"
    and "fst (position (agents w i)) < fst d"
    and "speed (agents w i) * dt < fst d - fst (position (agents w i))"
    and "scale (agents w i) \<noteq> 0"
    and "\<forall>j\<in>set others. scale (agents w j) \<noteq> 0 \<and> position (agents w j) = position (agents w i)"
  shows "move_towards_target w i others dt g =
           Inr (put_agent w i ((agents w i)\<lparr>desired_heading := (1, 0), heading := (1, 0),
                  position := (fst (position (agents w i))
                     + real_speed (agents w i) * scale (agents w i) * speed (agents w i) * dt,
                               snd (position (agents w i)))\<rparr>), g)"
proof -
  let ?a = "agents w i"
  have dist: "distance_to ?a d = fst d - fst (position ?a)"
    using assms(5,6) by (intro distance_to_east) simp_all
  have av: "avoid_collisions (agents w) i others = Inr (0, 0)"
    using assms(8,9) by (rule avoid_collisions_coincident)
  have dt: "dest_truthy ?a" using assms(2,3) by (simp add: dest_truthy_def)
  have uh: "update_heading ?a d (0, 0) = ?a\<lparr>desired_heading := (1, 0), heading := (1, 0)\<rparr>"
    using dt assms(4,5,6) by (rule update_heading_east)
  have "move_walking w i others dt g =
           Inr (put_agent w i (?a\<lparr>desired_heading := (1, 0), heading := (1, 0),
                  position := (fst (position ?a) + real_speed ?a * scale ?a * speed ?a * dt,
                               snd (position ?a))\<rparr>), g)"
    using assms(2,3,7) dist
    by (simp add: move_walking_def advance_def av uh point_add_def)
  then show ?thesis using assms(1) by (auto simp: move_towards_target_def)
qed

lemmas walk_defs = near_world_def far_world_def product_zone_def sqrt_100 sqrt_2500 sqrt_1000000

text \<open>
  C4: the code at the failing input. A shopper at the origin walks to a zone centred 10
  units away with speed 1, scale 1 and a time step of 0.033. The arrival test compares the
  distance with \<open>speed * delta_time = 0.033\<close>, the step taken is
  \<open>real_speed * scale * speed * delta_time = 33\<close>: the shopper is not snapped onto the
  destination although it lies within the step, and ends 23 units beyond it.
\<close>

theorem walking_step_passes_destination:
  "(case Agent_init near_world (0, 0) [1] [0] [(5, 5)] EXPLORER HIGH 1 1 fixed_rng of
      Inl e \<Rightarrow> False
    | Inr (w1, x, g1) \<Rightarrow>
        (case move_towards_target w1 x [x] 0.033 fixed_rng of
           Inl e \<Rightarrow> False
         | Inr (w2, g2) \<Rightarrow>
             state (agents w1 x) = WALKING \<and> position (agents w1 x) = (0, 0) \<and>
             destination (agents w1 x) = Some (10, 0) \<and>
             distance_to (agents w1 x) (10, 0) = 10 \<and>
             speed (agents w1 x) * 0.033 = 0.033 \<and>
             real_speed (agents w1 x) * scale (agents w1 x) * speed (agents w1 x) * 0.033 = 33 \<and>
             state (agents w2 x) = WALKING \<and> position (agents w2 x) = (33, 0) \<and>
             destination (agents w2 x) = Some (10, 0)))"
proof -
  have "(case Agent_init near_world (0, 0) [1] [0] [(5, 5)] EXPLORER HIGH 1 1 fixed_rng of
      Inl e \<Rightarrow> False
    | Inr (w1, x, g1) \<Rightarrow>
        state (agents w1 x) = WALKING \<and> position (agents w1 x) = (0, 0) \<and>
        destination (agents w1 x) = Some (10, 0) \<and> heading (agents w1 x) = (1, 0) \<and>
        speed (agents w1 x) = 1 \<and> scale (agents w1 x) = 1 \<and> real_speed (agents w1 x) = 1000)"
    by (simp add: run_defs walk_defs)
  then obtain w1 x g1 where
    i: "Agent_init near_world (0, 0) [1] [0] [(5, 5)] EXPLORER HIGH 1 1 fixed_rng = Inr (w1, x, g1)"
    and f: "state (agents w1 x) = WALKING" "position (agents w1 x) = (0, 0)"
      "destination (agents w1 x) = Some (10, 0)" "heading (agents w1 x) = (1, 0)"
      "speed (agents w1 x) = 1" "scale (agents w1 x) = 1" "real_speed (agents w1 x) = 1000"
    by (auto split: sum.splits)
  have "move_towards_target w1 x [x] 0.033 fixed_rng =
           Inr (put_agent w1 x ((agents w1 x)\<lparr>desired_heading := (1, 0), heading := (1, 0),
                  position := (fst (position (agents w1 x))
                     + real_speed (agents w1 x) * scale (agents w1 x) * speed (agents w1 x) * 0.033,
                               snd (position (agents w1 x)))\<rparr>), fixed_rng)"
    using f by (intro walk_east [where d = "(10, 0)"]) (simp_all add: point_truthy_def)
  then show ?thesis using i f
    by (simp add: put_agent_def distance_to_def sqrt_100)
qed

subsection \<open>C8: followers\<close>

lemma SIZES_get_values:
  "SIZES_get INDIVIDUAL = 1" "SIZES_get PAIR = 2" "SIZES_get FAMILY_GROUP = 3"
  by (simp_all add: SIZES_get_def INDIVIDUAL_def PAIR_def FAMILY_GROUP_def)

lemma group_types_distinct: "FAMILY_GROUP \<noteq> INDIVIDUAL" "PAIR \<noteq> INDIVIDUAL"
  by (simp_all add: INDIVIDUAL_def PAIR_def FAMILY_GROUP_def)

lemma random_choice_fixed: "xs \<noteq> [] \<Longrightarrow> random_choice xs fixed_rng = Inr (hd xs, fixed_rng)"
  by (cases xs) (simp_all add: random_choice_def fixed_rng_def)

lemmas group_defs = AgentGroup_init_def SIZES_get_values group_types_distinct random_choice_fixed
  numeral_3_eq_3

lemma sqrt_53361: "sqrt 53361 = 231"
  by (rule real_sqrt_unique) simp_all

lemma group_start:
  "(case AgentGroup_init far_world FAMILY_GROUP (100, 0) [1] [0] [(5, 5)] 1 10 fixed_rng of
      Inl e \<Rightarrow> False
    | Inr (w1, grp, g1) \<Rightarrow>
        members grp = [0, 1, 2] \<and> group_speed grp = 10 \<and>
        list_all (\<lambda>m. behavior (agents w1 m) = FAMILY \<and> speed (agents w1 m) = 7 \<and>
           scale (agents w1 m) = 1 \<and> real_speed (agents w1 m) = 1000 \<and>
           position (agents w1 m) = (100, 0) \<and> heading (agents w1 m) = (1, 0) \<and>
           state (agents w1 m) = WALKING \<and> destination (agents w1 m) = Some (1100, 0)) [0, 1, 2])"
  by (simp add: run_defs walk_defs group_defs)

lemma group_run:
  "(case AgentGroup_init far_world FAMILY_GROUP (100, 0) [1] [0] [(5, 5)] 1 10 fixed_rng of
      Inl e \<Rightarrow> False
    | Inr (w1, grp, g1) \<Rightarrow>
        (case AgentGroup_update grp w1 fixed_rng of
           Inl e \<Rightarrow> False
         | Inr (w2, g2) \<Rightarrow>
             members grp = [0, 1, 2] \<and> group_speed grp = 10 \<and>
             behavior (agents w1 1) = FAMILY \<and> speed (agents w1 1) = 7 \<and>
             position (agents w1 0) = (100, 0) \<and> position (agents w1 1) = (100, 0) \<and>
             position (agents w1 2) = (100, 0) \<and>
             position (agents w2 0) = (331, 0) \<and> position (agents w2 1) = (110, 0) \<and>
             position (agents w2 2) = (110, 0) \<and>
             speed (agents w1 1) * 0.033 < fst (position (agents w2 1)) - fst (position (agents w1 1))))"
proof -
  from group_start obtain w1 grp g1 where
    i: "AgentGroup_init far_world FAMILY_GROUP (100, 0) [1] [0] [(5, 5)] 1 10 fixed_rng
          = Inr (w1, grp, g1)"
    and g: "members grp = [0, 1, 2]" "group_speed grp = 10"
    and f: "list_all (\<lambda>m. behavior (agents w1 m) = FAMILY \<and> speed (agents w1 m) = 7 \<and>
           scale (agents w1 m) = 1 \<and> real_speed (agents w1 m) = 1000 \<and>
           position (agents w1 m) = (100, 0) \<and> heading (agents w1 m) = (1, 0) \<and>
           state (agents w1 m) = WALKING \<and> destination (agents w1 m) = Some (1100, 0)) [0, 1, 2]"
    by (auto split: sum.splits)
  have mv: "move_towards_target w1 0 [0, 1, 2] 0.033 fixed_rng =
           Inr (put_agent w1 0 ((agents w1 0)\<lparr>desired_heading := (1, 0), heading := (1, 0),
                  position := (fst (position (agents w1 0))
                     + real_speed (agents w1 0) * scale (agents w1 0) * speed (agents w1 0) * 0.033,
                               snd (position (agents w1 0)))\<rparr>), fixed_rng)"
    using f by (intro walk_east [where d = "(1100, 0)"]) (simp_all add: point_truthy_def)
  show ?thesis using i g f mv
    by (simp add: AgentGroup_update_def put_agent_def follow_step_def point_sub_def point_add_def
        sqrt_53361 sqrt_100 numeral_2_eq_2 Let_def)
qed

text \<open>
  C8, as stated, fails in its scenario. A family group of three is constructed at (100, 0)
  with speed multiplier 10, so each member has speed 7; the group walks to a zone at
  (1100, 0). In one update the leader moves 231 units to (331, 0). The first follower,
  231 units behind, advances by the group's speed 10, which is more than its own speed
  times the time step, 7 * 0.033.
\<close>

theorem follower_advances_by_group_speed:
  "(case AgentGroup_init far_world FAMILY_GROUP (100, 0) [1] [0] [(5, 5)] 1 10 fixed_rng of
      Inl e \<Rightarrow> False
    | Inr (w1, grp, g1) \<Rightarrow>
        (case AgentGroup_update grp w1 fixed_rng of
           Inl e \<Rightarrow> False
         | Inr (w2, g2) \<Rightarrow>
             members grp = [0, 1, 2] \<and> group_speed grp = 10 \<and>
             behavior (agents w1 1) = FAMILY \<and> speed (agents w1 1) = 7 \<and>
             position (agents w1 0) = (100, 0) \<and> position (agents w1 1) = (100, 0) \<and>
             position (agents w2 0) = (331, 0) \<and> position (agents w2 1) = (110, 0) \<and>
             speed (agents w1 1) * 0.033 < fst (position (agents w2 1)) - fst (position (agents w1 1))))"
  using group_run by (auto split: sum.splits)


lemma norm_scale: "sqrt ((a * k)\<^sup>2 + (b * k)\<^sup>2) = \<bar>k\<bar> * sqrt (a\<^sup>2 + b\<^sup>2)"
proof -
  have "(a * k)\<^sup>2 + (b * k)\<^sup>2 = k\<^sup>2 * (a\<^sup>2 + b\<^sup>2)" by (simp add: power_mult_distrib algebra_simps)
  then show ?thesis by (simp add: real_sqrt_mult)
qed

lemma step_geometry:
  fixes px py cx cy s :: real
  assumes "0 < sqrt ((px - cx)\<^sup>2 + (py - cy)\<^sup>2)" and "0 \<le> s"
    and "s \<le> sqrt ((px - cx)\<^sup>2 + (py - cy)\<^sup>2)"
  shows "sqrt ((cx + (px - cx) / sqrt ((px - cx)\<^sup>2 + (py - cy)\<^sup>2) * s - cx)\<^sup>2
             + (cy + (py - cy) / sqrt ((px - cx)\<^sup>2 + (py - cy)\<^sup>2) * s - cy)\<^sup>2) = s"
    and "sqrt ((px - (cx + (px - cx) / sqrt ((px - cx)\<^sup>2 + (py - cy)\<^sup>2) * s))\<^sup>2
             + (py - (cy + (py - cy) / sqrt ((px - cx)\<^sup>2 + (py - cy)\<^sup>2) * s))\<^sup>2)
           = sqrt ((px - cx)\<^sup>2 + (py - cy)\<^sup>2) - s"
proof -
  define d where "d = sqrt ((px - cx)\<^sup>2 + (py - cy)\<^sup>2)"
  have d: "0 < d" "s \<le> d" using assms by (simp_all add: d_def)
  have k: "\<bar>s / d\<bar> = s / d" "\<bar>1 - s / d\<bar> = 1 - s / d" using d assms(2) by simp_all
  have "sqrt ((cx + (px - cx) / d * s - cx)\<^sup>2 + (cy + (py - cy) / d * s - cy)\<^sup>2)
          = sqrt (((px - cx) * (s / d))\<^sup>2 + ((py - cy) * (s / d))\<^sup>2)"
    by simp
  also have "\<dots> = \<bar>s / d\<bar> * d" unfolding d_def by (rule norm_scale)
  also have "\<dots> = s" using d k by simp
  finally show "sqrt ((cx + (px - cx) / sqrt ((px - cx)\<^sup>2 + (py - cy)\<^sup>2) * s - cx)\<^sup>2
             + (cy + (py - cy) / sqrt ((px - cx)\<^sup>2 + (py - cy)\<^sup>2) * s - cy)\<^sup>2) = s"
    unfolding d_def .
  have e: "px - (cx + (px - cx) / d * s) = (px - cx) * (1 - s / d)"
    "py - (cy + (py - cy) / d * s) = (py - cy) * (1 - s / d)"
    by (simp_all add: algebra_simps)
  have "sqrt ((px - (cx + (px - cx) / d * s))\<^sup>2 + (py - (cy + (py - cy) / d * s))\<^sup>2)
          = sqrt (((px - cx) * (1 - s / d))\<^sup>2 + ((py - cy) * (1 - s / d))\<^sup>2)"
    by (simp only: e)
  also have "\<dots> = \<bar>1 - s / d\<bar> * d" unfolding d_def by (rule norm_scale)
  also have "\<dots> = d - s" using d k by (simp add: algebra_simps)
  finally show "sqrt ((px - (cx + (px - cx) / sqrt ((px - cx)\<^sup>2 + (py - cy)\<^sup>2) * s))\<^sup>2
             + (py - (cy + (py - cy) / sqrt ((px - cx)\<^sup>2 + (py - cy)\<^sup>2) * s))\<^sup>2)
           = sqrt ((px - cx)\<^sup>2 + (py - cy)\<^sup>2) - s"
    unfolding d_def .
qed

lemma follow_step_far:
  assumes "0 \<le> spd" and "0 < point_dist (position prev) (position cur)"
  shows "position (follow_step spd prev cur) =
           point_add (position cur)
             (fst (point_sub (position prev) (position cur)) / point_dist (position prev) (position cur)
                * min spd (point_dist (position prev) (position cur)),
              snd (point_sub (position prev) (position cur)) / point_dist (position prev) (position cur)
                * min spd (point_dist (position prev) (position cur)))"
    and "point_dist (position (follow_step spd prev cur)) (position cur)
           = min spd (point_dist (position prev) (position cur))"
    and "point_dist (position prev) (position (follow_step spd prev cur))
           = point_dist (position prev) (position cur) - min spd (point_dist (position prev) (position cur))"
proof -
  let ?d = "point_dist (position prev) (position cur)"
  let ?s = "min spd ?d"
  have s: "0 \<le> ?s" "?s \<le> ?d" using assms by simp_all
  show p: "position (follow_step spd prev cur) =
           point_add (position cur)
             (fst (point_sub (position prev) (position cur)) / ?d * ?s,
              snd (point_sub (position prev) (position cur)) / ?d * ?s)"
    using assms(2) by (simp add: follow_step_def Let_def point_dist_def)
  show "point_dist (position (follow_step spd prev cur)) (position cur) = ?s"
    unfolding p using assms(2) s
    unfolding point_dist_def point_sub_def point_add_def fst_conv snd_conv
    by (rule step_geometry(1))
  show "point_dist (position prev) (position (follow_step spd prev cur)) = ?d - ?s"
    unfolding p using assms(2) s
    unfolding point_dist_def point_sub_def point_add_def fst_conv snd_conv
    by (rule step_geometry(2))
qed

lemma follow_step_coincident:
  assumes "point_dist (position prev) (position cur) = 0"
  shows "position (follow_step spd prev cur) = position prev"
  using assms by (simp add: follow_step_def Let_def point_dist_def)

lemma point_dist_self: "point_dist p p = 0"
  by (simp add: point_dist_def point_sub_def)

lemma point_dist_zero: "point_dist p q = 0 \<Longrightarrow> p = q"
proof -
  assume "point_dist p q = 0"
  then have "(fst p - fst q)\<^sup>2 + (snd p - snd q)\<^sup>2 = 0"
    by (simp add: point_dist_def point_sub_def)
  then have "fst p - fst q = 0 \<and> snd p - snd q = 0"
    by (simp add: sum_power2_eq_zero_iff)
  then show "p = q" by (simp add: prod_eq_iff)
qed

lemma move_others_unchanged:
  assumes "move_towards_target w i others dt g = Inr (w', g')" and "j \<noteq> i"
  shows "agents w' j = agents w j"
  using assms
  by (auto simp: move_towards_target_def move_shopping_def move_paying_def move_in_queue_def
      move_walking_def arrive_def advance_def put_agent_def Let_def
      split: if_splits sum.splits option.splits prod.splits)

lemma follow_loop_outside: "j \<notin> set (tl ms) \<Longrightarrow> follow_loop spd ms ags j = ags j"
  by (induction spd ms ags rule: follow_loop.induct) auto

lemma follow_loop_nth:
  assumes "distinct ms" "0 < k" "k < length ms"
  shows "follow_loop spd ms ags (ms ! k)
           = follow_step spd (follow_loop spd ms ags (ms ! (k - 1))) (ags (ms ! k))"
  using assms
proof (induction spd ms ags arbitrary: k rule: follow_loop.induct)
  case (1 spd ags)
  then show ?case by simp
next
  case (2 spd m ags)
  then show ?case by simp
next
  case (3 spd p c rest ags)
  let ?ags = "ags(c := follow_step spd (ags p) (ags c))"
  have pc: "p \<noteq> c" "p \<notin> set rest" "c \<notin> set rest" "distinct (c # rest)"
    using "3.prems"(1) by auto
  show ?case
  proof (cases "k = 1")
    case True
    have "follow_loop spd (c # rest) ?ags c = ?ags c"
      using pc by (intro follow_loop_outside) simp
    moreover have "follow_loop spd (c # rest) ?ags p = ?ags p"
      using pc by (intro follow_loop_outside) simp
    ultimately show ?thesis using True pc by simp
  next
    case False
    then obtain k' where k: "k = Suc k'" "0 < k'" "k' < length (c # rest)"
      using "3.prems"(2,3) by (cases k) auto
    have ne: "(c # rest) ! k' \<noteq> c"
      using k pc by (cases k') auto
    have "follow_loop spd (c # rest) ?ags ((c # rest) ! k')
            = follow_step spd (follow_loop spd (c # rest) ?ags ((c # rest) ! (k' - 1))) (?ags ((c # rest) ! k'))"
      using pc(4) k(2,3) by (rule "3.IH")
    moreover have "(p # c # rest) ! (k - 1) = (c # rest) ! (k' - 1)"
      using k by (cases k') simp_all
    ultimately show ?thesis using k ne by simp
  qed
qed

text \<open>
  C8, amended: in one group update with distinct members and a non-negative group speed,
  the follower at index \<open>k \<ge> 1\<close> is moved by one \<open>follow_step\<close> towards the position that
  member \<open>k - 1\<close> has after its own move of this update. If the two coincide the follower
  is put on the predecessor's position. Otherwise it moves along the straight line to the
  predecessor by the lesser of the group's speed and the distance, so it ends that much
  nearer and never beyond the predecessor. The bound on one update is the group's speed:
  neither the follower's own speed nor the time step enters.
\<close>

theorem follower_steps_towards_predecessor:
  assumes "0 \<le> group_speed grp" and "distinct (members grp)"
    and "0 < k" and "k < length (members grp)"
    and "AgentGroup_update grp w g = Inr (w', g')"
  shows "agents w' (members grp ! k)
           = follow_step (group_speed grp) (agents w' (members grp ! (k - 1))) (agents w (members grp ! k)) \<and>
         (point_dist (position (agents w' (members grp ! (k - 1)))) (position (agents w (members grp ! k))) = 0
            \<longrightarrow> position (agents w' (members grp ! k)) = position (agents w' (members grp ! (k - 1)))) \<and>
         (0 < point_dist (position (agents w' (members grp ! (k - 1)))) (position (agents w (members grp ! k)))
            \<longrightarrow> position (agents w' (members grp ! k)) =
                  point_add (position (agents w (members grp ! k)))
                    (fst (point_sub (position (agents w' (members grp ! (k - 1))))
                                    (position (agents w (members grp ! k))))
                       / point_dist (position (agents w' (members grp ! (k - 1))))
                                    (position (agents w (members grp ! k)))
                       * min (group_speed grp)
                           (point_dist (position (agents w' (members grp ! (k - 1))))
                                       (position (agents w (members grp ! k)))),
                     snd (point_sub (position (agents w' (members grp ! (k - 1))))
                                    (position (agents w (members grp ! k))))
                       / point_dist (position (agents w' (members grp ! (k - 1))))
                                    (position (agents w (members grp ! k)))
                       * min (group_speed grp)
                           (point_dist (position (agents w' (members grp ! (k - 1))))
                                       (position (agents w (members grp ! k)))))) \<and>
         point_dist (position (agents w' (members grp ! k))) (position (agents w (members grp ! k)))
           = min (group_speed grp)
               (point_dist (position (agents w' (members grp ! (k - 1)))) (position (agents w (members grp ! k)))) \<and>
         point_dist (position (agents w' (members grp ! (k - 1)))) (position (agents w' (members grp ! k)))
           = point_dist (position (agents w' (members grp ! (k - 1)))) (position (agents w (members grp ! k)))
             - min (group_speed grp)
                 (point_dist (position (agents w' (members grp ! (k - 1)))) (position (agents w (members grp ! k))))"
proof -
  let ?ms = "members grp" and ?spd = "group_speed grp"
  obtain leader followers where ms: "?ms = leader # followers"
    using assms(4) by (cases ?ms) auto
  obtain w1 where m: "move_towards_target w leader ?ms 0.033 g = Inr (w1, g')"
    and w': "w' = w1\<lparr>agents := follow_loop ?spd ?ms (agents w1)\<rparr>"
    using assms(5) ms by (auto simp: AgentGroup_update_def split: sum.splits)
  have "?ms ! k \<noteq> leader"
    using assms(2,3,4) ms by (auto simp: nth_Cons split: nat.splits)
  then have cur: "agents w1 (?ms ! k) = agents w (?ms ! k)"
    using m by (rule move_others_unchanged [rotated])
  let ?prev = "agents w' (?ms ! (k - 1))" and ?cur = "agents w (?ms ! k)"
  let ?d = "point_dist (position ?prev) (position ?cur)"
  have st: "agents w' (?ms ! k) = follow_step ?spd ?prev ?cur"
    using follow_loop_nth [OF assms(2,3,4), of ?spd "agents w1"] cur w' by simp
  have z: "position (agents w' (?ms ! k)) = position ?prev" if "?d = 0"
    unfolding st using that by (rule follow_step_coincident)
  have "0 \<le> ?d" by (simp add: point_dist_def)
  then consider "?d = 0" | "0 < ?d" by linarith
  then have dist: "point_dist (position (agents w' (?ms ! k))) (position ?cur) = min ?spd ?d \<and>
      point_dist (position ?prev) (position (agents w' (?ms ! k))) = ?d - min ?spd ?d"
  proof cases
    case 1
    have "position ?prev = position ?cur" using 1 by (rule point_dist_zero)
    then show ?thesis using z [OF 1] 1 assms(1) by (simp add: point_dist_self)
  next
    case 2
    show ?thesis unfolding st using follow_step_far(2,3) [OF assms(1) 2] by simp
  qed
  have far: "position (agents w' (?ms ! k)) =
                  point_add (position ?cur)
                    (fst (point_sub (position ?prev) (position ?cur)) / ?d * min ?spd ?d,
                     snd (point_sub (position ?prev) (position ?cur)) / ?d * min ?spd ?d)" if "0 < ?d"
    unfolding st using assms(1) that by (rule follow_step_far(1))
  show ?thesis using st z far dist by blast
qed

theorem follower_steps_towards_predecessor_witness:
  "(case AgentGroup_init far_world FAMILY_GROUP (100, 0) [1] [0] [(5, 5)] 1 10 fixed_rng of
      Inl e \<Rightarrow> False
    | Inr (w1, grp, g1) \<Rightarrow>
        (case AgentGroup_update grp w1 fixed_rng of
           Inl e \<Rightarrow> False
         | Inr (w2, g2) \<Rightarrow>
             0 \<le> group_speed grp \<and> distinct (members grp) \<and> 1 < length (members grp) \<and>
             group_speed grp = 10 \<and>
             point_dist (position (agents w2 0)) (position (agents w1 1)) = 231 \<and>
             point_dist (position (agents w2 1)) (position (agents w1 1)) = 10 \<and>
             point_dist (position (agents w2 0)) (position (agents w2 1)) = 221))"
proof -
  from group_run obtain w1 grp g1 w2 g2 where
    i: "AgentGroup_init far_world FAMILY_GROUP (100, 0) [1] [0] [(5, 5)] 1 10 fixed_rng
          = Inr (w1, grp, g1)"
    and u: "AgentGroup_update grp w1 fixed_rng = Inr (w2, g2)"
    and g: "members grp = [0, 1, 2]" "group_speed grp = 10"
    and p: "position (agents w1 1) = (100, 0)" "position (agents w2 0) = (331, 0)"
    by (auto split: sum.splits)
  have d: "point_dist (position (agents w2 0)) (position (agents w1 1)) = 231"
    using p by (simp add: point_dist_def point_sub_def sqrt_53361)
  have "0 \<le> group_speed grp" "distinct (members grp)" "0 < (1::nat)" "1 < length (members grp)"
    using g by simp_all
  from follower_steps_towards_predecessor [OF this u]
  have "point_dist (position (agents w2 (members grp ! 1))) (position (agents w1 (members grp ! 1)))
           = min (group_speed grp)
               (point_dist (position (agents w2 (members grp ! (1 - 1)))) (position (agents w1 (members grp ! 1)))) \<and>
         point_dist (position (agents w2 (members grp ! (1 - 1)))) (position (agents w2 (members grp ! 1)))
           = point_dist (position (agents w2 (members grp ! (1 - 1)))) (position (agents w1 (members grp ! 1)))
             - min (group_speed grp)
                 (point_dist (position (agents w2 (members grp ! (1 - 1)))) (position (agents w1 (members grp ! 1))))"
    by blast
  then show ?thesis using i u g d by simp
qed

subsection \<open>C9: the population factory\<close>

lemma choose_keeps_behavior:
  assumes "choose_next_target a zs g = Inr (a', zs', g')"
  shows "behavior a' = behavior a"
  using assms by (cases rule: choose_next_target_elim) simp_all

lemma choose_next_target_total:
  assumes "state a \<noteq> LEAVING" "scale a \<noteq> 0"
  shows "\<exists>a' zs' g'. choose_next_target a zs g = Inr (a', zs', g')"
proof (cases "unvisited_zones a = []")
  case False
  then show ?thesis using choose_next_target_products [OF assms(1) False, of zs g] by blast
next
  case True
  show ?thesis
  proof (cases "filter (\<lambda>cz. can_join_queue (zs cz)) (cash_zones a) = []")
    case e: True
    then show ?thesis using choose_next_target_full [OF assms(1) True e] by blast
  next
    case ne: False
    obtain c where c: "py_min_key (cash_key_less a zs) (filter (\<lambda>cz. can_join_queue (zs cz)) (cash_zones a)) = Inr c"
      using py_min_key_some [OF ne] by blast
    then have "c \<in> set (filter (\<lambda>cz. can_join_queue (zs cz)) (cash_zones a))" by (rule py_min_key_mem)
    then have cj: "can_join_queue (zs c)" "cash_zones a \<noteq> []" by auto
    show ?thesis using assms True ne c cj
      by (simp add: choose_next_target_def join_queue_def get_queue_position_def Let_def
          choose_product_zone_none)
  qed
qed

lemma grown_refl: "grown w 0 w"
  by (simp add: grown_def list_all_iff)

lemma grown_trans: "grown w n w1 \<Longrightarrow> grown w1 m w2 \<Longrightarrow> grown w (n + m) w2"
  by (auto simp: grown_def list_all_iff)

lemma Agent_init_total:
  assumes "scl \<noteq> 0"
  shows "\<exists>w' g'. Agent_init w sp sz cz ep beh bud scl spd g = Inr (w', id_counter w, g') \<and>
           grown w 1 w' \<and> behavior (agents w' (id_counter w)) = beh"
proof -
  obtain a0 g6 where f: "fresh_agent (id_counter w) sp sz cz ep beh bud scl spd g = (a0, g6)"
    by (cases "fresh_agent (id_counter w) sp sz cz ep beh bud scl spd g")
  note ff = fresh_agent_fields [OF f]
  obtain a1 zs g7 where c: "choose_next_target a0 (zones w) g6 = Inr (a1, zs, g7)"
    using choose_next_target_total [of a0 "zones w" g6] ff assms by auto
  have "behavior a1 = beh" using choose_keeps_behavior [OF c] ff by simp
  then show ?thesis using f c
    by (simp add: Agent_init_def grown_def list_all_iff)
qed

lemma make_members_total:
  assumes "scl \<noteq> 0"
  shows "\<exists>w' g'. make_members n sp tz cz ep beh bud scl spd ms w g
                    = Inr (w', ms @ [id_counter w..<id_counter w + n], g') \<and>
           grown w n w' \<and> list_all (\<lambda>m. behavior (agents w' m) = beh) [id_counter w..<id_counter w + n]"
proof (induction n arbitrary: ms w g)
  case 0
  then show ?case by (simp add: grown_refl)
next
  case (Suc n)
  obtain w1 g1 where a: "Agent_init w sp tz cz ep beh bud scl spd g = Inr (w1, id_counter w, g1)"
    and gr: "grown w 1 w1" and b: "behavior (agents w1 (id_counter w)) = beh"
    using Agent_init_total [OF assms] by blast
  have id1: "id_counter w1 = Suc (id_counter w)" using gr by (simp add: grown_def)
  obtain w' g' where
    m: "make_members n sp tz cz ep beh bud scl spd (ms @ [id_counter w]) w1 g1
          = Inr (w', (ms @ [id_counter w]) @ [id_counter w1..<id_counter w1 + n], g')"
    and gr2: "grown w1 n w'"
    and b2: "list_all (\<lambda>m. behavior (agents w' m) = beh) [id_counter w1..<id_counter w1 + n]"
    using Suc.IH by blast
  have l: "[id_counter w..<id_counter w + Suc n] = id_counter w # [id_counter w1..<id_counter w1 + n]"
    using id1 by (simp add: upt_rec)
  have "agents w' (id_counter w) = agents w1 (id_counter w)"
    using gr2 id1 by (simp add: grown_def list_all_iff)
  then have b1: "behavior (agents w' (id_counter w)) = beh" using b by simp
  have "grown w (Suc n) w'" using grown_trans [OF gr gr2] by simp
  then show ?case using a m b1 b2 l by simp
qed

lemma group_ok_grown:
  assumes "group_ok w grp" "grown w n w'"
  shows "group_ok w' grp"
  using assms by (auto simp: group_ok_def grown_def list_all_iff)

lemma SIZES_get_positive: "0 < SIZES_get t"
  by (simp add: SIZES_get_def)

lemma SIZES_get_multi: "1 < SIZES_get t \<Longrightarrow> t \<noteq> INDIVIDUAL"
  by (auto simp: SIZES_get_def)

lemma AgentGroup_init_total:
  assumes "scl \<noteq> 0"
  shows "\<exists>w' grp g'. AgentGroup_init w gt sp tz cz ep scl spd g = Inr (w', grp, g') \<and>
           group_type grp = gt \<and> grown w (SIZES_get gt) w' \<and> group_ok w' grp \<and>
           (gt = INDIVIDUAL \<longrightarrow>
              list_all (\<lambda>m. behavior (agents w' m)
                        = [IMPULSIVE, TARGETED, EXPLORER, BUDGET] ! (picks g 0 mod 4)) (members grp))"
proof -
  define beh where "beh = (if gt = INDIVIDUAL
      then [IMPULSIVE, TARGETED, EXPLORER, BUDGET] ! (picks g 0 mod 4) else FAMILY)"
  define g1 where "g1 = (if gt = INDIVIDUAL then g\<lparr>picks := (\<lambda>n. picks g (Suc n))\<rparr> else g)"
  have b: "(if gt = INDIVIDUAL then random_choice [IMPULSIVE, TARGETED, EXPLORER, BUDGET] g
            else Inr (FAMILY, g)) = Inr (beh, g1)"
    by (simp add: random_choice_def beh_def g1_def)
  have bv: "if gt = INDIVIDUAL then beh = [IMPULSIVE, TARGETED, EXPLORER, BUDGET] ! (picks g 0 mod 4)
             else beh = FAMILY"
    by (simp add: beh_def)
  have bin: "gt = INDIVIDUAL \<Longrightarrow> beh \<in> set [IMPULSIVE, TARGETED, EXPLORER, BUDGET]"
  proof -
    assume "gt = INDIVIDUAL"
    then have "beh = [IMPULSIVE, TARGETED, EXPLORER, BUDGET] ! (picks g 0 mod 4)" using bv by simp
    moreover have "picks g 0 mod 4 < length [IMPULSIVE, TARGETED, EXPLORER, BUDGET]" by simp
    ultimately show ?thesis using nth_mem by metis
  qed
  obtain bud g2 where bu: "random_choice [LOW, MEDIUM, HIGH] g1 = Inr (bud, g2)"
    by (simp add: random_choice_def)
  obtain w' g3 where
    m: "make_members (SIZES_get gt) sp tz cz ep beh bud scl spd [] w g2
          = Inr (w', [] @ [id_counter w..<id_counter w + SIZES_get gt], g3)"
    and gr: "grown w (SIZES_get gt) w'"
    and bh: "list_all (\<lambda>m. behavior (agents w' m) = beh) [id_counter w..<id_counter w + SIZES_get gt]"
    using make_members_total [OF assms] by blast
  let ?grp = "\<lparr>group_type = gt, members = [id_counter w..<id_counter w + SIZES_get gt], group_speed = spd\<rparr>"
  have r: "AgentGroup_init w gt sp tz cz ep scl spd g = Inr (w', ?grp, g3)"
    using b bu m by (simp add: AgentGroup_init_def)
  have idc: "id_counter w' = id_counter w + SIZES_get gt" using gr by (simp add: grown_def)
  have ok: "group_ok w' ?grp"
    using bh bv bin idc by (auto simp: group_ok_def list_all_iff)
  have ind: "gt = INDIVIDUAL \<longrightarrow>
              list_all (\<lambda>m. behavior (agents w' m)
                        = [IMPULSIVE, TARGETED, EXPLORER, BUDGET] ! (picks g 0 mod 4)) (members ?grp)"
    using bh bv by (auto simp: list_all_iff)
  show ?thesis using r gr ok ind by (intro exI [of _ w'] exI [of _ ?grp] exI [of _ g3]) simp
qed

lemma make_groups_total:
  assumes "scl \<noteq> 0" "entrances \<noteq> []" "list_all (group_ok w) groups"
  shows "\<exists>w' new g'. make_groups n gt entrances pz cz ep scl spd groups w g = Inr (w', groups @ new, g') \<and>
           map group_type new = replicate n gt \<and> grown w (n * SIZES_get gt) w' \<and>
           list_all (group_ok w') (groups @ new)"
  using assms(3)
proof (induction n arbitrary: groups w g)
  case 0
  then show ?case by (simp add: grown_refl)
next
  case (Suc n)
  obtain start g1 where s: "random_choice entrances g = Inr (start, g1)"
    using random_choice_mem [OF assms(2)] by blast
  obtain w1 grp g2 where a: "AgentGroup_init w gt start pz cz ep scl spd g1 = Inr (w1, grp, g2)"
    and t: "group_type grp = gt" and gr: "grown w (SIZES_get gt) w1" and ok: "group_ok w1 grp"
    using AgentGroup_init_total [OF assms(1)] by blast
  have "list_all (group_ok w1) (groups @ [grp])"
    using Suc.prems ok gr by (auto simp: list_all_iff intro: group_ok_grown)
  from Suc.IH [OF this] obtain w' new g' where
    m: "make_groups n gt entrances pz cz ep scl spd (groups @ [grp]) w1 g2 = Inr (w', (groups @ [grp]) @ new, g')"
    and ty: "map group_type new = replicate n gt" and gr2: "grown w1 (n * SIZES_get gt) w'"
    and ok2: "list_all (group_ok w') ((groups @ [grp]) @ new)"
    by blast
  have "grown w (Suc n * SIZES_get gt) w'" using grown_trans [OF gr gr2] by simp
  then show ?case using s a m t ty ok2
    by (intro exI [of _ w'] exI [of _ "grp # new"] exI [of _ g']) simp
qed

lemma per_type_total:
  assumes "scl \<noteq> 0" "entrances \<noteq> []" "list_all (group_ok w) groups"
  shows "\<exists>w' new g'. per_type distribution total_agents entrances pz cz ep scl spd groups used w g
                        = Inr (w', groups @ new, used + int (planned_agents total_agents distribution), g') \<and>
           map group_type new = planned_types total_agents distribution \<and>
           grown w (planned_agents total_agents distribution) w' \<and>
           list_all (group_ok w') (groups @ new)"
  using assms(3)
proof (induction distribution arbitrary: groups used w g)
  case Nil
  then show ?case by (simp add: planned_types_def planned_agents_def grown_refl)
next
  case (Cons tp rest)
  obtain gt pct where tp: "tp = (gt, pct)" by (cases tp)
  let ?n = "nat (group_count total_agents pct (SIZES_get gt))"
  obtain w1 new1 g1 where
    m: "make_groups ?n gt entrances pz cz ep scl spd groups w g = Inr (w1, groups @ new1, g1)"
    and ty: "map group_type new1 = replicate ?n gt" and gr: "grown w (?n * SIZES_get gt) w1"
    and ok: "list_all (group_ok w1) (groups @ new1)"
    using make_groups_total [OF assms(1,2) Cons.prems] by blast
  from Cons.IH [OF ok, of "used + int ?n * int (SIZES_get gt)" g1] obtain w' new2 g' where
    p: "per_type rest total_agents entrances pz cz ep scl spd (groups @ new1)
          (used + int ?n * int (SIZES_get gt)) w1 g1
        = Inr (w', (groups @ new1) @ new2,
               used + int ?n * int (SIZES_get gt) + int (planned_agents total_agents rest), g')"
    and ty2: "map group_type new2 = planned_types total_agents rest"
    and gr2: "grown w1 (planned_agents total_agents rest) w'"
    and ok2: "list_all (group_ok w') ((groups @ new1) @ new2)"
    by blast
  have pa: "planned_agents total_agents (tp # rest) = ?n * SIZES_get gt + planned_agents total_agents rest"
    by (simp add: planned_agents_def tp group_count_def)
  have pt: "planned_types total_agents (tp # rest) = replicate ?n gt @ planned_types total_agents rest"
    by (simp add: planned_types_def tp group_count_def)
  have "grown w (planned_agents total_agents (tp # rest)) w'"
    unfolding pa using gr gr2 by (rule grown_trans)
  then show ?case using m p ty ty2 ok2 pa pt tp
    by (intro exI [of _ w'] exI [of _ "new1 @ new2"] exI [of _ g']) (simp add: Let_def)
qed

lemma planned_agents_bound:
  assumes "0 \<le> total_agents" "list_all (\<lambda>(t, pct). 0 \<le> pct) distribution"
  shows "real (planned_agents total_agents distribution)
           \<le> real_of_int total_agents * sum_list (map snd distribution)"
  using assms(2)
proof (induction distribution)
  case Nil
  then show ?case by (simp add: planned_agents_def)
next
  case (Cons tp rest)
  obtain gt pct where tp: "tp = (gt, pct)" by (cases tp)
  let ?s = "real (SIZES_get gt)"
  let ?x = "real_of_int total_agents * pct / ?s"
  have s: "0 < ?s" using SIZES_get_positive [of gt] by simp
  have p: "0 \<le> pct" using Cons.prems tp by simp
  have x: "0 \<le> ?x" using assms(1) p s by simp
  then have "0 \<le> \<lfloor>?x\<rfloor>" by simp
  then have "real (nat \<lfloor>?x\<rfloor>) = real_of_int \<lfloor>?x\<rfloor>" by simp
  also have "\<dots> \<le> ?x" by (rule of_int_floor_le)
  finally have le: "real (nat \<lfloor>?x\<rfloor>) \<le> ?x" .
  have "real (nat \<lfloor>?x\<rfloor>) * ?s \<le> ?x * ?s"
    using le s by (intro mult_right_mono) simp_all
  also have "?x * ?s = real_of_int total_agents * pct" using s by simp
  finally have one: "real (nat \<lfloor>?x\<rfloor> * SIZES_get gt) \<le> real_of_int total_agents * pct" by simp
  have "real (planned_agents total_agents rest) \<le> real_of_int total_agents * sum_list (map snd rest)"
    using Cons by simp
  then show ?case using one by (simp add: planned_agents_def tp algebra_simps)
qed

lemma members_of_planned:
  "sum_list (map SIZES_get (planned_types total_agents distribution)) = planned_agents total_agents distribution"
proof (induction distribution)
  case Nil
  then show ?case by (simp add: planned_types_def planned_agents_def)
next
  case (Cons tp rest)
  obtain gt pct where tp: "tp = (gt, pct)" by (cases tp)
  have "sum_list (map SIZES_get (replicate n gt)) = n * SIZES_get gt" for n
    by (induction n) simp_all
  then show ?case using Cons by (simp add: planned_types_def planned_agents_def tp)
qed

lemma members_by_type:
  assumes "list_all (group_ok w) groups"
  shows "sum_list (map (\<lambda>grp. length (members grp)) groups) = sum_list (map SIZES_get (map group_type groups))"
  using assms by (induction groups) (simp_all add: group_ok_def)

end
